theory Spec2Isabelle
  imports Complex_Main "HOL-Library.Multiset"
begin

section \<open>Agent model (agent.js)\<close>

text \<open>
  The five agent states of the frozen \<open>State\<close> object.
\<close>

datatype State = IDLE | MOVING | JAMMED | REROUTING | SATISFIED

text \<open>
  One \<open>Agent\<close> object. JavaScript numbers that only ever hold integers are \<open>int\<close>;
  \<open>stubbornness\<close> is compared with \<open>Math.random()\<close> and is a \<open>real\<close>. The field
  \<open>value\<close> is called \<open>val\<close> and \<open>id\<close> is called \<open>agent_id\<close>, since both names are
  taken in Isabelle.
\<close>

record agent =
  agent_id :: nat
  val :: int
  goalIndex :: int
  pos :: int
  state :: State
  energy :: int
  patience :: int
  jamCount :: int
  totalJams :: int
  totalSwaps :: int
  waitTicks :: int
  stubbornness :: real
  memory :: "string list"

datatype action = Stay | Wait | Push | Move

record intent =
  action :: action
  direction :: int

text \<open>
  \<open>Math.random()\<close>: the source of draws is an infinite sequence of reals; a call reads
  the head and leaves the tail. Every draw of the real function lies in \<open>[0, 1)\<close>,
  which \<open>valid_rng\<close> says of a sequence.
\<close>

type_synonym rng = "nat \<Rightarrow> real"

definition Math_random :: "rng \<Rightarrow> real \<times> rng" where
  "Math_random rnd = (rnd 0, \<lambda>k. rnd (Suc k))"

definition valid_rng :: "rng \<Rightarrow> bool" where
  "valid_rng rnd \<longleftrightarrow> (\<forall>k. 0 \<le> rnd k \<and> rnd k < 1)"

text \<open>
  \<open>new Agent(v)\<close> followed by the three assignments of the callback in \<open>reset\<close>
  (\<open>a.pos = i\<close>, \<open>a.goalIndex = ...\<close>, \<open>a.stubbornness = ...\<close>): the constructor's
  \<open>null\<close> placeholders for \<open>pos\<close> and \<open>goalIndex\<close> and its default stubbornness are
  overwritten before the object can be seen by anything else. \<open>ident\<close> is the value of
  the module counter \<open>_id\<close> that the constructor reads and increments.
\<close>

definition new_Agent :: "nat \<Rightarrow> int \<Rightarrow> int \<Rightarrow> int \<Rightarrow> real \<Rightarrow> agent" where
  "new_Agent ident v i g stub =
     \<lparr>agent_id = ident, val = v, goalIndex = g, pos = i, state = IDLE,
      energy = 100, patience = 3, jamCount = 0, totalJams = 0, totalSwaps = 0,
      waitTicks = 0, stubbornness = stub, memory = []\<rparr>"

definition atGoal :: "agent \<Rightarrow> bool" where
  "atGoal a \<longleftrightarrow> pos a = goalIndex a"

definition distanceToGoal :: "agent \<Rightarrow> int" where
  "distanceToGoal a = goalIndex a - pos a"

text \<open>
  \<open>decide\<close> mutates the agent and returns an intent: the model returns both. The two
  neighbours are object references or \<open>null\<close>; only their presence is tested.
\<close>

definition decide :: "agent \<Rightarrow> agent option \<Rightarrow> agent option \<Rightarrow> agent \<times> intent" where
  "decide a leftNeighbor rightNeighbor =
     (if atGoal a then
        (a\<lparr>state := SATISFIED\<rparr>, \<lparr>action = Stay, direction = 0\<rparr>)
      else if waitTicks a > 0 then
        (a\<lparr>waitTicks := waitTicks a - 1, state := JAMMED\<rparr>, \<lparr>action = Wait, direction = 0\<rparr>)
      else
        let dist = distanceToGoal a;
            wantDir = (if dist > 0 then 1 else - 1);
            neighbor = (if wantDir = - 1 then leftNeighbor else rightNeighbor)
        in if neighbor = None then
             (a\<lparr>state := IDLE\<rparr>, \<lparr>action = Stay, direction = 0\<rparr>)
           else if jamCount a \<ge> patience a then
             (a\<lparr>jamCount := 0, state := REROUTING\<rparr>, \<lparr>action = Push, direction = - wantDir\<rparr>)
           else
             (a\<lparr>state := MOVING\<rparr>, \<lparr>action = Move, direction = wantDir\<rparr>))"

text \<open>\<open>_remember\<close>: push the event, then drop the oldest one when more than 12 are held.\<close>

definition remember :: "string list \<Rightarrow> string \<Rightarrow> string list" where
  "remember mem event = (let m = mem @ [event] in if length m > 12 then tl m else m)"

definition notifyJam :: "agent \<Rightarrow> agent" where
  "notifyJam a =
     a\<lparr>jamCount := jamCount a + 1,
       totalJams := totalJams a + 1,
       waitTicks := min (jamCount a + 1) 3,
       state := JAMMED,
       memory := remember (memory a) ''jam''\<rparr>"

definition notifySwap :: "agent \<Rightarrow> int \<Rightarrow> agent" where
  "notifySwap a newPos =
     a\<lparr>pos := newPos,
       totalSwaps := totalSwaps a + 1,
       jamCount := max 0 (jamCount a - 1),
       memory := remember (memory a) ''swap''\<rparr>"

text \<open>
  \<open>considerSwap\<close> draws from \<open>Math.random()\<close> only in its second and third branch;
  the model returns the answer together with the remaining draws.
\<close>

definition considerSwap :: "agent \<Rightarrow> int \<Rightarrow> rng \<Rightarrow> bool \<times> rng" where
  "considerSwap a requesterDir rnd =
     (let hypotheticalPos = pos a + requesterDir;
          currentDist = \<bar>distanceToGoal a\<bar>;
          newDist = \<bar>goalIndex a - hypotheticalPos\<bar>
      in if newDist < currentDist then (True, rnd)
         else if newDist = currentDist then
           (let (r, rnd') = Math_random rnd in (r > 0.3, rnd'))
         else
           (let (r, rnd') = Math_random rnd in (r > stubbornness a, rnd')))"

section \<open>Simulation (simulation.js)\<close>

text \<open>
  The fields of a \<open>Simulation\<close>. \<open>count\<close> and \<open>stubbornness\<close> are prefixed (the first
  name is taken by multisets, the second by the agent record). \<open>timer\<close> is the pending
  timeout, if any, with its delay in milliseconds. The callbacks \<open>onTick\<close> and \<open>onLog\<close>
  are modelled by the list of calls made to them, returned by each operation.
\<close>

record simulation =
  sim_count :: int
  sim_stubbornness :: real
  agents :: "agent list"
  step :: nat
  swaps :: nat
  jams :: nat
  reroutes :: nat
  running :: bool
  timer :: "real option"
  speed :: real

record snap_agent =
  sa_id :: nat
  sa_value :: int
  sa_pos :: int
  sa_goal :: int
  sa_state :: State
  sa_jamCount :: int
  sa_totalJams :: int

record snapshot =
  sn_step :: nat
  sn_swaps :: nat
  sn_jams :: nat
  sn_reroutes :: nat
  sn_sorted :: bool
  sn_agents :: "snap_agent list"

text \<open>
  The three log lines, with the values interpolated into the message and, implicitly,
  the category tag (\<open>done\<close>, \<open>route\<close>, \<open>jam\<close>).
\<close>

datatype log_line =
    LogDone
  | LogRoute int nat nat
  | LogJam int nat int

datatype emitted = OnTick snapshot | OnLog log_line

datatype js_error = RangeError | TypeError

text \<open>
  \<open>shuffle\<close>: for \<open>i\<close> from \<open>length - 1\<close> down to 1, exchange \<open>arr[i]\<close> with
  \<open>arr[floor(random() * (i + 1))]\<close>. \<open>shuffle_from i\<close> is the loop entered with the
  counter at \<open>i\<close>.
\<close>

fun shuffle_from :: "nat \<Rightarrow> 'a list \<Rightarrow> rng \<Rightarrow> 'a list \<times> rng" where
  "shuffle_from 0 arr rnd = (arr, rnd)"
| "shuffle_from (Suc i) arr rnd =
     (let (r, rnd') = Math_random rnd;
          j = nat \<lfloor>r * real (Suc i + 1)\<rfloor>
      in shuffle_from i (arr[Suc i := arr ! j, j := arr ! Suc i]) rnd')"

definition shuffle :: "'a list \<Rightarrow> rng \<Rightarrow> 'a list \<times> rng" where
  "shuffle arr rnd = shuffle_from (length arr - 1) arr rnd"

text \<open>\<open>Array.prototype.indexOf\<close>: the first index holding \<open>v\<close>, or \<open>-1\<close>.\<close>

fun indexOf :: "'a list \<Rightarrow> 'a \<Rightarrow> int" where
  "indexOf [] v = - 1"
| "indexOf (x # xs) v =
     (if x = v then 0 else let k = indexOf xs v in if k < 0 then - 1 else k + 1)"

definition isSorted :: "simulation \<Rightarrow> bool" where
  "isSorted s \<longleftrightarrow> list_all atGoal (agents s)"

definition snapshot :: "simulation \<Rightarrow> snapshot" where
  "snapshot s =
     \<lparr>sn_step = step s, sn_swaps = swaps s, sn_jams = jams s, sn_reroutes = reroutes s,
      sn_sorted = isSorted s,
      sn_agents = map (\<lambda>a. \<lparr>sa_id = agent_id a, sa_value = val a, sa_pos = pos a,
                             sa_goal = goalIndex a, sa_state = state a,
                             sa_jamCount = jamCount a, sa_totalJams = totalJams a\<rparr>)
                      (agents s)\<rparr>"

definition stop :: "simulation \<Rightarrow> simulation" where
  "stop s = s\<lparr>running := False, timer := None\<rparr>"

definition schedule :: "simulation \<Rightarrow> simulation" where
  "schedule s = s\<lparr>timer := Some (max 10 (1000 / speed s))\<rparr>"

definition run :: "simulation \<Rightarrow> simulation" where
  "run s = (if running s then s else schedule (s\<lparr>running := True\<rparr>))"

text \<open>
  The agents that \<open>reset\<close> builds from the shuffled \<open>values\<close>: agent \<open>i\<close> holds
  \<open>values[i]\<close>, stands at \<open>i\<close> and has as goal the index of its value in the sorted
  copy. The callback of \<open>values.map\<close> runs in index order, so agent \<open>i\<close> takes the
  identifier \<open>next_id + i\<close>.
\<close>

definition build_agents :: "int list \<Rightarrow> real \<Rightarrow> nat \<Rightarrow> agent list" where
  "build_agents values stub next_id =
     (let sorted = sort values
      in map (\<lambda>i. new_Agent (next_id + i) (values ! i) (int i) (indexOf sorted (values ! i)) stub)
             [0..<length values])"

text \<open>
  \<open>reset\<close>. \<open>Array.from({length: count}, ...)\<close> clamps a negative length to 0 and throws
  a \<open>RangeError\<close> for a length above \<open>2^32 - 1\<close>. The result carries the new value of
  the identifier counter, the remaining draws and the snapshot given to \<open>onTick\<close>.
\<close>

definition reset :: "simulation \<Rightarrow> nat \<Rightarrow> rng \<Rightarrow> js_error + (simulation \<times> nat \<times> rng \<times> emitted list)" where
  "reset s next_id rnd =
     (let s1 = (stop s)\<lparr>step := 0, swaps := 0, jams := 0, reroutes := 0\<rparr>
      in if sim_count s1 > 4294967295 then Inl RangeError
         else
           let (values, rnd') = shuffle (map (\<lambda>i. int i + 1) [0..<nat (sim_count s1)]) rnd;
               s2 = s1\<lparr>agents := build_agents values (sim_stubbornness s1) next_id\<rparr>
           in Inr (s2, next_id + length values, rnd', [OnTick (snapshot s2)]))"

text \<open>
  The constructor, with its two defaults for absent options, then \<open>reset\<close>.
\<close>

definition Simulation_new ::
  "int option \<Rightarrow> real option \<Rightarrow> nat \<Rightarrow> rng \<Rightarrow> js_error + (simulation \<times> nat \<times> rng \<times> emitted list)" where
  "Simulation_new cnt stub next_id rnd =
     reset \<lparr>sim_count = (case cnt of None \<Rightarrow> 20 | Some c \<Rightarrow> c),
            sim_stubbornness = (case stub of None \<Rightarrow> 0.3 | Some x \<Rightarrow> x),
            agents = [], step = 0, swaps = 0, jams = 0, reroutes = 0,
            running = False, timer = None, speed = 50\<rparr>
       next_id rnd"

text \<open>
  \<open>_swap(i, j)\<close>: exchange the two agents in the array and tell each its new index.
  Both callers pass \<open>j = i + direction\<close> with a non-zero direction, so the two indices
  differ.
\<close>

definition swap :: "simulation \<Rightarrow> nat \<Rightarrow> nat \<Rightarrow> simulation" where
  "swap s i j =
     (let a = agents s ! i;
          b = agents s ! j
      in s\<lparr>agents := (agents s)[i := notifySwap b (int i), j := notifySwap a (int j)],
           swaps := swaps s + 1\<rparr>)"

text \<open>
  The intent collection pass of \<open>_tick\<close>: \<open>intents\<close> is the sparse array, a map from
  indices to intents. Reading \<open>this.agents[i]\<close> out of range gives \<open>undefined\<close>, and
  the call of \<open>decide\<close> on it throws.
\<close>

fun collect ::
  "nat list \<Rightarrow> simulation \<Rightarrow> (nat \<rightharpoonup> intent) \<Rightarrow> js_error + (simulation \<times> (nat \<rightharpoonup> intent))" where
  "collect [] s intents = Inr (s, intents)"
| "collect (i # rest) s intents =
     (if i < length (agents s) then
        let a = agents s ! i;
            left = (if i > 0 then Some (agents s ! (i - 1)) else None);
            right = (if i < length (agents s) - 1 then Some (agents s ! (i + 1)) else None);
            (a', it) = decide a left right
        in collect rest (s\<lparr>agents := (agents s)[i := a']\<rparr>) (intents(i \<mapsto> it))
      else Inl TypeError)"

text \<open>
  The state of the resolution pass: the simulation, the set \<open>swappedThisTick\<close>, the
  remaining draws and the log lines emitted so far.
\<close>

record rstate =
  r_sim :: simulation
  swappedThisTick :: "nat set"
  r_rng :: rng
  r_out :: "emitted list"

text \<open>
  One iteration of the resolution loop, for index \<open>i\<close>. An absent intent makes
  \<open>intent.direction\<close> throw; an absent agent \<open>this.agents[i]\<close> is dereferenced on
  every path that passes the three \<open>continue\<close> tests.
\<close>

definition resolve_one :: "nat \<Rightarrow> (nat \<rightharpoonup> intent) \<Rightarrow> rstate \<Rightarrow> js_error + rstate" where
  "resolve_one i intents st =
     (if i \<in> swappedThisTick st then Inr st
      else case intents i of
        None \<Rightarrow> Inl TypeError
      | Some it \<Rightarrow>
          if direction it = 0 then Inr st
          else
            let j = int i + direction it
            in if j < 0 \<or> j \<ge> int (length (agents (r_sim st))) then Inr st
               else if nat j \<in> swappedThisTick st then Inr st
               else if i \<ge> length (agents (r_sim st)) then Inl TypeError
               else
                 let a = agents (r_sim st) ! i;
                     neighbor = agents (r_sim st) ! nat j
                 in if action it = Push then
                      Inr (st\<lparr>r_sim := (swap (r_sim st) i (nat j))
                                          \<lparr>reroutes := reroutes (r_sim st) + 1\<rparr>,
                               swappedThisTick := insert (nat j) (insert i (swappedThisTick st)),
                               r_out := r_out st @ [OnLog (LogRoute (val a) i (nat j))]\<rparr>)
                    else
                      let (accepted, rnd') = considerSwap neighbor (- direction it) (r_rng st)
                      in if accepted then
                           Inr (st\<lparr>r_sim := swap (r_sim st) i (nat j),
                                    swappedThisTick := insert (nat j) (insert i (swappedThisTick st)),
                                    r_rng := rnd'\<rparr>)
                         else
                           Inr (st\<lparr>r_sim := (r_sim st)
                                      \<lparr>agents := (agents (r_sim st))[i := notifyJam a],
                                       jams := jams (r_sim st) + 1\<rparr>,
                                    r_rng := rnd',
                                    r_out := r_out st @ [OnLog (LogJam (val a) i (val neighbor))]\<rparr>))"

fun resolve :: "nat list \<Rightarrow> (nat \<rightharpoonup> intent) \<Rightarrow> rstate \<Rightarrow> js_error + rstate" where
  "resolve [] intents st = Inr st"
| "resolve (i # rest) intents st =
     (case resolve_one i intents st of
        Inl e \<Rightarrow> Inl e
      | Inr st' \<Rightarrow> resolve rest intents st')"

text \<open>
  \<open>_tick\<close>. The result carries the remaining draws and the calls made to \<open>onLog\<close> and
  \<open>onTick\<close>, in order.
\<close>

definition tick :: "simulation \<Rightarrow> rng \<Rightarrow> js_error + (simulation \<times> rng \<times> emitted list)" where
  "tick s rnd =
     (if isSorted s then
        let s1 = stop s;
            s2 = s1\<lparr>agents := map (\<lambda>a. a\<lparr>state := SATISFIED\<rparr>) (agents s1)\<rparr>
        in Inr (s2, rnd, [OnTick (snapshot s2), OnLog LogDone])
      else
        let s1 = s\<lparr>step := step s + 1\<rparr>;
            (order, rnd1) = shuffle [0..<length (agents s1)] rnd
        in case collect order s1 Map.empty of
             Inl e \<Rightarrow> Inl e
           | Inr (s2, intents) \<Rightarrow>
               (case resolve order intents
                       \<lparr>r_sim = s2, swappedThisTick = {}, r_rng = rnd1, r_out = []\<rparr> of
                  Inl e \<Rightarrow> Inl e
                | Inr st \<Rightarrow>
                    let s3 = r_sim st
                    in Inr (if running s3 then schedule s3 else s3,
                            r_rng st,
                            r_out st @ [OnTick (snapshot s3)])))"

definition stepOnce :: "simulation \<Rightarrow> rng \<Rightarrow> js_error + (simulation \<times> rng \<times> emitted list)" where
  "stepOnce s rnd = tick s rnd"

text \<open>
  \<open>k\<close> successive invocations of \<open>_tick\<close> (by the timer or by the step button), each
  continuing with the draws the previous one left.
\<close>

fun ticks :: "nat \<Rightarrow> simulation \<Rightarrow> rng \<Rightarrow> js_error + (simulation \<times> rng)" where
  "ticks 0 s rnd = Inr (s, rnd)"
| "ticks (Suc k) s rnd =
     (case tick s rnd of
        Inl e \<Rightarrow> Inl e
      | Inr (s', rnd', out) \<Rightarrow> ticks k s' rnd')"

section \<open>Vocabulary of the properties\<close>

text \<open>A sequence of draws that gives the same number every time.\<close>

definition const_rng :: "real \<Rightarrow> rng" where
  "const_rng r = (\<lambda>k. r)"

text \<open>
  The calls that the engine makes on one agent and that change it, and a sequence of
  them applied from left to right.
\<close>

datatype agent_call =
    CallDecide "agent option" "agent option"
  | CallNotifyJam
  | CallNotifySwap int

fun apply_call :: "agent \<Rightarrow> agent_call \<Rightarrow> agent" where
  "apply_call a (CallDecide l r) = fst (decide a l r)"
| "apply_call a CallNotifyJam = notifyJam a"
| "apply_call a (CallNotifySwap p) = notifySwap a p"

definition apply_calls :: "agent \<Rightarrow> agent_call list \<Rightarrow> agent" where
  "apply_calls a cs = foldl apply_call a cs"

text \<open>
  Two concrete simulations of three agents holding the values 2, 3, 1. In \<open>edge_sim\<close>
  the agent at index 0 has been jammed three times; \<open>mid_sim\<close> is a simulation after
  a collection pass in which the agent at index 1 chose to reroute.
\<close>

definition edge_sim :: simulation where
  "edge_sim =
     \<lparr>sim_count = 3, sim_stubbornness = 0.3,
      agents = [(new_Agent 0 2 0 1 0.3)\<lparr>jamCount := 3\<rparr>, new_Agent 1 3 1 2 0.3, new_Agent 2 1 2 0 0.3],
      step = 9, swaps = 0, jams = 3, reroutes = 0,
      running = False, timer = None, speed = 50\<rparr>"

definition mid_sim :: simulation where
  "mid_sim =
     \<lparr>sim_count = 3, sim_stubbornness = 0.3,
      agents = [(new_Agent 0 2 0 1 0.3)\<lparr>state := MOVING\<rparr>,
                (new_Agent 1 3 1 2 0.3)\<lparr>state := REROUTING\<rparr>,
                (new_Agent 2 1 2 0 0.3)\<lparr>state := MOVING\<rparr>],
      step = 10, swaps = 0, jams = 3, reroutes = 0,
      running = False, timer = None, speed = 50\<rparr>"

text \<open>
  The identity of an agent together with its goal, and the statement that every agent
  of a list stands at the index it occupies.
\<close>

definition ident_goal :: "agent \<Rightarrow> nat \<times> int" where
  "ident_goal a = (agent_id a, goalIndex a)"

definition positions_ok :: "agent list \<Rightarrow> bool" where
  "positions_ok as \<longleftrightarrow> (\<forall>k < length as. pos (as ! k) = int k)"

text \<open>
  A sequence of draws that starts with two draws of 0.1 and then gives 0.9 for ever,
  and the simulation of three agents that the constructor builds from it: the two
  small draws shuffle the values 1, 2, 3 into 2, 3, 1.
\<close>

definition cycle_rng :: rng where
  "cycle_rng = (\<lambda>k. if k < 2 then 1 / 10 else 9 / 10)"

definition cycle_start :: simulation where
  "cycle_start =
     \<lparr>sim_count = 3, sim_stubbornness = 0,
      agents = [new_Agent 0 2 0 1 0, new_Agent 1 3 1 2 0, new_Agent 2 1 2 0 0],
      step = 0, swaps = 0, jams = 0, reroutes = 0,
      running = False, timer = None, speed = 50\<rparr>"

text \<open>
  Draws that are never 0. Agents that have stubbornness 0, no jam on record, no
  cooldown and the constructor's patience of 3. A simulation of three such agents
  standing at their indices with the given goals.
\<close>

definition positive_rng :: "rng \<Rightarrow> bool" where
  "positive_rng rnd \<longleftrightarrow> (\<forall>k. 0 < rnd k \<and> rnd k < 1)"

definition calm :: "agent list \<Rightarrow> bool" where
  "calm as \<longleftrightarrow>
     (\<forall>a \<in> set as. stubbornness a = 0 \<and> jamCount a = 0 \<and> waitTicks a = 0 \<and> patience a = 3)"

definition cycle_config :: "int list \<Rightarrow> simulation \<Rightarrow> bool" where
  "cycle_config goals s \<longleftrightarrow>
     map goalIndex (agents s) = goals \<and> map pos (agents s) = [0, 1, 2] \<and> calm (agents s)"

text \<open>
  The two neighbour references that the collection pass hands to \<open>decide\<close> for the
  agent at index \<open>i\<close> of an agent list.
\<close>

definition left_of :: "agent list \<Rightarrow> nat \<Rightarrow> agent option" where
  "left_of as i = (if i > 0 then Some (as ! (i - 1)) else None)"

definition right_of :: "agent list \<Rightarrow> nat \<Rightarrow> agent option" where
  "right_of as i = (if i < length as - 1 then Some (as ! (i + 1)) else None)"

text \<open>
  An agent's goal together with its state, and a simulation of three agents in
  which one swap completes the sort.
\<close>

definition goal_state :: "agent \<Rightarrow> int \<times> State" where
  "goal_state a = (goalIndex a, state a)"

definition last_swap_sim :: simulation where
  "last_swap_sim =
     \<lparr>sim_count = 3, sim_stubbornness = 0.3,
      agents = [(new_Agent 0 1 0 0 0.3)\<lparr>state := SATISFIED\<rparr>,
                (new_Agent 1 3 1 2 0.3)\<lparr>state := JAMMED\<rparr>,
                (new_Agent 2 2 2 1 0.3)\<lparr>state := MOVING\<rparr>],
      step = 7, swaps = 4, jams = 2, reroutes = 0,
      running = False, timer = None, speed = 50\<rparr>"

text \<open>
  During the resolution pass: at every index not yet consumed, an intent to move
  (non-zero direction, not a push) belongs to an agent that is not at its goal and
  points towards that goal. Every stored direction is \<open>-1\<close>, 0 or 1.
\<close>

definition intents_follow_goals :: "(nat \<rightharpoonup> intent) \<Rightarrow> rstate \<Rightarrow> bool" where
  "intents_follow_goals m st \<longleftrightarrow>
     (\<forall>k it. k \<notin> swappedThisTick st \<and> m k = Some it \<and> direction it \<noteq> 0 \<and> action it \<noteq> Push \<longrightarrow>
        goalIndex (agents (r_sim st) ! k) \<noteq> int k \<and>
        direction it = (if goalIndex (agents (r_sim st) ! k) - int k > 0 then 1 else - 1))"

definition unit_directions :: "(nat \<rightharpoonup> intent) \<Rightarrow> bool" where
  "unit_directions m \<longleftrightarrow> (\<forall>k it. m k = Some it \<longrightarrow> direction it \<in> {- 1, 0, 1})"

section \<open>The acceptance policy\<close>

text \<open>
  C2: \<open>considerSwap(d)\<close>, with the draw \<open>r\<close> read from the head of the sequence.
  A swap that brings the agent closer is accepted without a draw. At equal distance it
  is accepted exactly when \<open>r > 0.3\<close>, and the accepting draws of \<open>[0, 1)\<close> are the
  interval \<open>(0.3, 1)\<close>, of length 0.7. At a larger distance it is accepted exactly when
  \<open>r > stubbornness\<close>, and the accepting draws are the interval \<open>(stubbornness, 1)\<close>,
  of length \<open>1 - stubbornness\<close>.
\<close>

theorem considerSwap_policy:
  "(\<bar>goalIndex a - (pos a + d)\<bar> < \<bar>goalIndex a - pos a\<bar> \<longrightarrow>
      considerSwap a d rnd = (True, rnd)) \<and>
   (\<bar>goalIndex a - (pos a + d)\<bar> = \<bar>goalIndex a - pos a\<bar> \<longrightarrow>
      fst (considerSwap a d rnd) = (rnd 0 > 0.3) \<and>
      {r. 0 \<le> r \<and> r < 1 \<and> fst (considerSwap a d (const_rng r))} = {0.3 <..< 1}) \<and>
   (\<bar>goalIndex a - (pos a + d)\<bar> > \<bar>goalIndex a - pos a\<bar> \<longrightarrow>
      fst (considerSwap a d rnd) = (rnd 0 > stubbornness a) \<and>
      (0 \<le> stubbornness a \<longrightarrow>
        {r. 0 \<le> r \<and> r < 1 \<and> fst (considerSwap a d (const_rng r))} = {stubbornness a <..< 1}))"
  by (auto simp: considerSwap_def distanceToGoal_def Math_random_def const_rng_def Let_def)

theorem considerSwap_policy_witness:
  "considerSwap (new_Agent 0 1 2 0 0.5) (- 1) (const_rng 0.25) = (True, const_rng 0.25) \<and>
   fst (considerSwap (new_Agent 0 1 2 2 0.5) 0 (const_rng 0.25)) = False \<and>
   {r. 0 \<le> r \<and> r < 1 \<and> fst (considerSwap (new_Agent 0 1 2 2 0.5) 0 (const_rng r))} = {0.3 <..< 1} \<and>
   fst (considerSwap (new_Agent 0 1 2 0 0.5) 1 (const_rng 0.75)) = True \<and>
   {r. 0 \<le> r \<and> r < 1 \<and> fst (considerSwap (new_Agent 0 1 2 0 0.5) 1 (const_rng r))} = {0.5 <..< 1}"
  using considerSwap_policy [of "new_Agent 0 1 2 0 0.5" "- 1" "const_rng 0.25"]
        considerSwap_policy [of "new_Agent 0 1 2 2 0.5" 0 "const_rng 0.25"]
        considerSwap_policy [of "new_Agent 0 1 2 0 0.5" 1 "const_rng 0.75"]
  by (simp add: new_Agent_def const_rng_def)

section \<open>Back-off and jam count\<close>

lemma apply_call_jamCount_nonneg:
  "0 \<le> jamCount a \<Longrightarrow> 0 \<le> jamCount (apply_call a c)"
  by (cases c) (auto simp: decide_def notifyJam_def notifySwap_def Let_def)

lemma foldl_apply_call_jamCount_nonneg:
  "0 \<le> jamCount a \<Longrightarrow> 0 \<le> jamCount (foldl apply_call a cs)"
  by (induction cs arbitrary: a) (simp_all add: apply_call_jamCount_nonneg)

text \<open>
  C8: take a freshly built agent and any sequence of \<open>decide\<close>, \<open>notifyJam\<close> and
  \<open>notifySwap\<close> calls. The jam count is then not negative; a further \<open>notifyJam\<close>
  sets \<open>waitTicks\<close> to the minimum of the new jam count and 3, hence to at most 3; a
  further \<open>notifySwap\<close> lowers the jam count by one, but not below 0.
\<close>

theorem jam_backoff_bound:
  "0 \<le> jamCount (apply_calls (new_Agent ident v i g stub) cs) \<and>
   waitTicks (notifyJam (apply_calls (new_Agent ident v i g stub) cs)) \<le> 3 \<and>
   waitTicks (notifyJam (apply_calls (new_Agent ident v i g stub) cs))
     = min (jamCount (notifyJam (apply_calls (new_Agent ident v i g stub) cs))) 3 \<and>
   jamCount (notifySwap (apply_calls (new_Agent ident v i g stub) cs) p)
     = max 0 (jamCount (apply_calls (new_Agent ident v i g stub) cs) - 1)"
proof -
  have "0 \<le> jamCount (new_Agent ident v i g stub)"
    by (simp add: new_Agent_def)
  then have "0 \<le> jamCount (apply_calls (new_Agent ident v i g stub) cs)"
    unfolding apply_calls_def by (rule foldl_apply_call_jamCount_nonneg)
  then show ?thesis
    by (simp add: notifyJam_def notifySwap_def)
qed

theorem jam_backoff_bound_witness:
  "jamCount (apply_calls (new_Agent 0 4 0 3 0.3)
      [CallNotifyJam, CallNotifySwap 1, CallNotifySwap 2, CallNotifyJam, CallNotifyJam,
       CallNotifyJam, CallNotifyJam]) = 4 \<and>
   waitTicks (apply_calls (new_Agent 0 4 0 3 0.3)
      [CallNotifyJam, CallNotifySwap 1, CallNotifySwap 2, CallNotifyJam, CallNotifyJam,
       CallNotifyJam, CallNotifyJam]) = 3 \<and>
   jamCount (apply_calls (new_Agent 0 4 0 3 0.3)
      [CallNotifyJam, CallNotifySwap 1, CallNotifySwap 2]) = 0"
  using jam_backoff_bound [of 0 4 0 3 "0.3" "[CallNotifyJam, CallNotifySwap 1, CallNotifySwap 2]" 5]
  by (simp add: apply_calls_def new_Agent_def notifyJam_def notifySwap_def)

section \<open>The neutral branch and the engine\<close>

lemma decide_direction:
  "direction (snd (decide a l r)) \<in> {- 1, 0, 1}"
  by (simp add: decide_def Let_def)

lemma collect_intents_decided:
  "collect order s m = Inr (s', m') \<Longrightarrow> m' i = Some it \<Longrightarrow>
   m i = Some it \<or> (\<exists>a l r. it = snd (decide a l r))"
proof (induction order arbitrary: s m)
  case Nil
  then show ?case by simp
next
  case (Cons k rest)
  from Cons.prems(1) have k: "k < length (agents s)"
    by (simp split: if_splits)
  obtain a' it' where d: "decide (agents s ! k)
        (if k > 0 then Some (agents s ! (k - 1)) else None)
        (if k < length (agents s) - 1 then Some (agents s ! (k + 1)) else None) = (a', it')"
    by (cases "decide (agents s ! k)
        (if k > 0 then Some (agents s ! (k - 1)) else None)
        (if k < length (agents s) - 1 then Some (agents s ! (k + 1)) else None)") blast
  from Cons.prems(1) k d
  have "collect rest (s\<lparr>agents := (agents s)[k := a']\<rparr>) (m(k \<mapsto> it')) = Inr (s', m')"
    by (simp add: Let_def)
  from Cons.IH [OF this Cons.prems(2)]
  have "(m(k \<mapsto> it')) i = Some it \<or> (\<exists>a l r. it = snd (decide a l r))" .
  then show ?case
  proof
    assume upd: "(m(k \<mapsto> it')) i = Some it"
    show ?thesis
    proof (cases "i = k")
      case True
      with upd have "it = it'" by simp
      with d have "it = snd (decide (agents s ! k)
        (if k > 0 then Some (agents s ! (k - 1)) else None)
        (if k < length (agents s) - 1 then Some (agents s ! (k + 1)) else None))"
        by simp
      then show ?thesis by blast
    next
      case False
      with upd show ?thesis by simp
    qed
  next
    assume "\<exists>a l r. it = snd (decide a l r)"
    then show ?thesis ..
  qed
qed

text \<open>
  C9: the resolution pass calls \<open>considerSwap\<close> with the opposite of the direction of
  an intent that the collection pass stored, and only when that direction is not 0.
  For any such intent and any neighbour, the neighbour's hypothetical distance differs
  from its current distance by exactly 1, so \<open>considerSwap\<close> never takes its
  equal-distance branch: it accepts at once when the distance shrinks and otherwise
  compares the draw with the neighbour's stubbornness.
\<close>

theorem engine_never_neutral:
  assumes "collect order s Map.empty = Inr (s', intents)"
    and "intents i = Some it"
    and "direction it \<noteq> 0"
  shows "\<bar>\<bar>goalIndex nb - (pos nb + (- direction it))\<bar> - \<bar>distanceToGoal nb\<bar>\<bar> = 1 \<and>
         considerSwap nb (- direction it) rnd =
           (if \<bar>goalIndex nb - (pos nb + (- direction it))\<bar> < \<bar>distanceToGoal nb\<bar>
            then (True, rnd)
            else (rnd 0 > stubbornness nb, snd (Math_random rnd)))"
proof -
  from collect_intents_decided [OF assms(1) assms(2)]
  obtain a l r where "it = snd (decide a l r)" by auto
  with decide_direction [of a l r] assms(3)
  have "direction it = 1 \<or> direction it = - 1" by auto
  then show ?thesis
    by (auto simp: considerSwap_def distanceToGoal_def Math_random_def Let_def)
qed

theorem engine_never_neutral_witness:
  "collect [0, 1] \<lparr>sim_count = 2, sim_stubbornness = 0.3,
                   agents = [new_Agent 0 2 0 1 0.3, new_Agent 1 1 1 0 0.3],
                   step = 1, swaps = 0, jams = 0, reroutes = 0,
                   running = False, timer = None, speed = 50\<rparr> Map.empty
     = Inr (\<lparr>sim_count = 2, sim_stubbornness = 0.3,
             agents = [(new_Agent 0 2 0 1 0.3)\<lparr>state := MOVING\<rparr>,
                       (new_Agent 1 1 1 0 0.3)\<lparr>state := MOVING\<rparr>],
             step = 1, swaps = 0, jams = 0, reroutes = 0,
             running = False, timer = None, speed = 50\<rparr>,
            [0 \<mapsto> \<lparr>action = Move, direction = 1\<rparr>, 1 \<mapsto> \<lparr>action = Move, direction = - 1\<rparr>]) \<and>
   \<bar>\<bar>goalIndex (new_Agent 1 1 1 0 0.3) - (pos (new_Agent 1 1 1 0 0.3) + (- 1))\<bar>
      - \<bar>distanceToGoal (new_Agent 1 1 1 0 0.3)\<bar>\<bar> = 1 \<and>
   considerSwap (new_Agent 1 1 1 0 0.3) (- 1) (const_rng 0.1) = (True, const_rng 0.1)"
proof -
  have c: "collect [0, 1] \<lparr>sim_count = 2, sim_stubbornness = 0.3,
                   agents = [new_Agent 0 2 0 1 0.3, new_Agent 1 1 1 0 0.3],
                   step = 1, swaps = 0, jams = 0, reroutes = 0,
                   running = False, timer = None, speed = 50\<rparr> Map.empty
     = Inr (\<lparr>sim_count = 2, sim_stubbornness = 0.3,
             agents = [(new_Agent 0 2 0 1 0.3)\<lparr>state := MOVING\<rparr>,
                       (new_Agent 1 1 1 0 0.3)\<lparr>state := MOVING\<rparr>],
             step = 1, swaps = 0, jams = 0, reroutes = 0,
             running = False, timer = None, speed = 50\<rparr>,
            [0 \<mapsto> \<lparr>action = Move, direction = 1\<rparr>, 1 \<mapsto> \<lparr>action = Move, direction = - 1\<rparr>])"
    by (simp add: decide_def atGoal_def distanceToGoal_def new_Agent_def Let_def)
  have i: "[0 \<mapsto> \<lparr>action = Move, direction = 1\<rparr>, 1 \<mapsto> \<lparr>action = Move, direction = - 1\<rparr>] (0::nat)
             = Some \<lparr>action = Move, direction = 1\<rparr>"
    by simp
  have d: "direction \<lparr>action = Move, direction = 1\<rparr> \<noteq> 0" by simp
  from engine_never_neutral [OF c i d, of "new_Agent 1 1 1 0 0.3" "const_rng 0.1"] c
  show ?thesis
    by (simp add: new_Agent_def distanceToGoal_def)
qed

section \<open>The terminal tick\<close>

lemma isSorted_satisfied:
  "isSorted (s\<lparr>agents := map (\<lambda>a. a\<lparr>state := SATISFIED\<rparr>) (agents s)\<rparr>) = isSorted s"
  by (simp add: isSorted_def list_all_iff atGoal_def)

text \<open>
  C5: when every agent is at its goal, step-once returns the simulation stopped and
  with every agent's state \<open>satisfied\<close>; \<open>step\<close>, \<open>swaps\<close>, \<open>jams\<close> and \<open>reroutes\<close> are
  unchanged, the snapshot given to \<open>onTick\<close> reports \<open>sorted\<close>, and no draw is used.
  A second step-once returns the same simulation and makes the same two calls.
\<close>

theorem terminal_tick_idempotent:
  "isSorted s \<Longrightarrow>
   (let s' = (stop s)\<lparr>agents := map (\<lambda>a. a\<lparr>state := SATISFIED\<rparr>) (agents s)\<rparr>;
        out = [OnTick (snapshot s'), OnLog LogDone]
    in stepOnce s rnd = Inr (s', rnd, out) \<and>
       step s' = step s \<and> swaps s' = swaps s \<and> jams s' = jams s \<and> reroutes s' = reroutes s \<and>
       (\<forall>a \<in> set (agents s'). state a = SATISFIED) \<and>
       sn_sorted (snapshot s') \<and>
       stepOnce s' rnd' = Inr (s', rnd', out))"
proof -
  assume srt: "isSorted s"
  define s' where "s' = (stop s)\<lparr>agents := map (\<lambda>a. a\<lparr>state := SATISFIED\<rparr>) (agents s)\<rparr>"
  have ag: "agents (stop s) = agents s" by (simp add: stop_def)
  have srt': "isSorted s'"
    using srt isSorted_satisfied [of "stop s"] by (simp add: s'_def ag isSorted_def)
  have first: "stepOnce s rnd = Inr (s', rnd, [OnTick (snapshot s'), OnLog LogDone])"
    using srt by (simp add: stepOnce_def tick_def s'_def Let_def ag)
  have again: "(stop s')\<lparr>agents := map (\<lambda>a. a\<lparr>state := SATISFIED\<rparr>) (agents (stop s'))\<rparr> = s'"
    by (simp add: s'_def stop_def comp_def)
  have second: "stepOnce s' rnd' = Inr (s', rnd', [OnTick (snapshot s'), OnLog LogDone])"
    using srt' by (simp add: stepOnce_def tick_def Let_def again)
  have counters: "step s' = step s \<and> swaps s' = swaps s \<and> jams s' = jams s \<and> reroutes s' = reroutes s"
    by (simp add: s'_def stop_def)
  have sat: "\<forall>a \<in> set (agents s'). state a = SATISFIED"
    by (auto simp: s'_def)
  have "sn_sorted (snapshot s')" using srt' by (simp add: snapshot_def)
  with first second counters sat show ?thesis
    unfolding Let_def s'_def [symmetric] by simp
qed

theorem terminal_tick_idempotent_witness:
  "isSorted \<lparr>sim_count = 2, sim_stubbornness = 0.3,
             agents = [(new_Agent 0 1 0 0 0.3)\<lparr>state := MOVING\<rparr>,
                       (new_Agent 1 2 1 1 0.3)\<lparr>state := JAMMED\<rparr>],
             step = 4, swaps = 1, jams = 2, reroutes = 0,
             running = True, timer = Some 20, speed = 50\<rparr> \<and>
   stepOnce \<lparr>sim_count = 2, sim_stubbornness = 0.3,
             agents = [(new_Agent 0 1 0 0 0.3)\<lparr>state := MOVING\<rparr>,
                       (new_Agent 1 2 1 1 0.3)\<lparr>state := JAMMED\<rparr>],
             step = 4, swaps = 1, jams = 2, reroutes = 0,
             running = True, timer = Some 20, speed = 50\<rparr> (const_rng 0.5)
     = Inr (\<lparr>sim_count = 2, sim_stubbornness = 0.3,
             agents = [(new_Agent 0 1 0 0 0.3)\<lparr>state := SATISFIED\<rparr>,
                       (new_Agent 1 2 1 1 0.3)\<lparr>state := SATISFIED\<rparr>],
             step = 4, swaps = 1, jams = 2, reroutes = 0,
             running = False, timer = None, speed = 50\<rparr>,
            const_rng 0.5,
            [OnTick (snapshot \<lparr>sim_count = 2, sim_stubbornness = 0.3,
               agents = [(new_Agent 0 1 0 0 0.3)\<lparr>state := SATISFIED\<rparr>,
                         (new_Agent 1 2 1 1 0.3)\<lparr>state := SATISFIED\<rparr>],
               step = 4, swaps = 1, jams = 2, reroutes = 0,
               running = False, timer = None, speed = 50\<rparr>),
             OnLog LogDone])"
proof -
  have srt: "isSorted \<lparr>sim_count = 2, sim_stubbornness = 0.3,
             agents = [(new_Agent 0 1 0 0 0.3)\<lparr>state := MOVING\<rparr>,
                       (new_Agent 1 2 1 1 0.3)\<lparr>state := JAMMED\<rparr>],
             step = 4, swaps = 1, jams = 2, reroutes = 0,
             running = True, timer = Some 20, speed = 50\<rparr>"
    by (simp add: isSorted_def atGoal_def new_Agent_def)
  from terminal_tick_idempotent [OF srt, of "const_rng 0.5" "const_rng 0.5"] srt
  show ?thesis
    by (simp add: Let_def stop_def)
qed

section \<open>Construction with fewer than two agents\<close>

lemma shuffle_short: "length arr \<le> 1 \<Longrightarrow> shuffle arr rnd = (arr, rnd)"
proof -
  assume "length arr \<le> 1"
  then have "length arr - 1 = 0" by simp
  then show ?thesis by (simp add: shuffle_def)
qed

text \<open>
  C6, as the code has it: the constructor checks nothing. For a count below 2 it
  returns a simulation with no agent (a count of 0 or less) or with the single agent
  of value 1 standing at its goal 0; that simulation is sorted from the start, and its
  first snapshot is emitted.
\<close>

theorem small_count_constructs:
  "c < 2 \<Longrightarrow>
   (let s = \<lparr>sim_count = c, sim_stubbornness = stub,
             agents = (if c = 1 then [new_Agent next_id 1 0 0 stub] else []),
             step = 0, swaps = 0, jams = 0, reroutes = 0,
             running = False, timer = None, speed = 50\<rparr>
    in Simulation_new (Some c) (Some stub) next_id rnd
         = Inr (s, next_id + nat c, rnd, [OnTick (snapshot s)]) \<and>
       isSorted s)"
proof -
  assume c: "c < 2"
  show ?thesis
  proof (cases "c = 1")
    case True
    then show ?thesis
      by (simp add: Simulation_new_def reset_def stop_def shuffle_short build_agents_def
            isSorted_def atGoal_def new_Agent_def Let_def)
  next
    case False
    with c have "nat c = 0" by simp
    with False c show ?thesis
      by (simp add: Simulation_new_def reset_def stop_def shuffle_short build_agents_def
            isSorted_def Let_def)
  qed
qed

theorem small_count_constructs_witness:
  "Simulation_new (Some 0) (Some 0.3) 7 (const_rng 0.5)
     = Inr (\<lparr>sim_count = 0, sim_stubbornness = 0.3, agents = [],
             step = 0, swaps = 0, jams = 0, reroutes = 0,
             running = False, timer = None, speed = 50\<rparr>, 7, const_rng 0.5,
            [OnTick \<lparr>sn_step = 0, sn_swaps = 0, sn_jams = 0, sn_reroutes = 0,
                     sn_sorted = True, sn_agents = []\<rparr>])"
  using small_count_constructs [of 0 "0.3" 7 "const_rng 0.5"]
  by (simp add: snapshot_def isSorted_def)

text \<open>
  The claim that a count below 2 is rejected fails at count 1: the constructor
  returns no error, and the simulation it returns holds one agent.
\<close>

theorem single_agent_not_rejected:
  "\<not> isl (Simulation_new (Some 1) (Some 0.3) 0 (const_rng 0.5)) \<and>
   agents (fst (projr (Simulation_new (Some 1) (Some 0.3) 0 (const_rng 0.5))))
     = [new_Agent 0 1 0 0 0.3]"
  by (simp add: Simulation_new_def reset_def stop_def shuffle_short build_agents_def Let_def)

section \<open>Goal assignment\<close>

lemma indexOf_nonneg: "v \<in> set xs \<Longrightarrow> 0 \<le> indexOf xs v"
  by (induction xs) (auto simp: Let_def)

lemma indexOf_sorted_rank:
  fixes v :: int
  shows "sorted xs \<Longrightarrow> distinct xs \<Longrightarrow> v \<in> set xs \<Longrightarrow>
         indexOf xs v = int (card {u \<in> set xs. u < v})"
proof (induction xs)
  case Nil
  then show ?case by simp
next
  case (Cons x xs)
  show ?case
  proof (cases "x = v")
    case True
    with Cons.prems have "{u \<in> set (x # xs). u < v} = {}" by auto
    with True show ?thesis by simp
  next
    case False
    with Cons.prems have v: "v \<in> set xs" and lt: "x < v" by auto
    from Cons.prems have x: "x \<notin> set xs" by simp
    from lt have "{u \<in> set (x # xs). u < v} = insert x {u \<in> set xs. u < v}" by auto
    with x have c: "card {u \<in> set (x # xs). u < v} = Suc (card {u \<in> set xs. u < v})" by simp
    from Cons.prems v have "indexOf xs v = int (card {u \<in> set xs. u < v})"
      by (intro Cons.IH) auto
    with False c indexOf_nonneg [OF v] show ?thesis by (simp add: Let_def)
  qed
qed

lemma build_agents_nth:
  "i < length vs \<Longrightarrow>
   build_agents vs stub nid ! i = new_Agent (nid + i) (vs ! i) (int i) (indexOf (sort vs) (vs ! i)) stub"
  by (simp add: build_agents_def)

lemma length_build_agents: "length (build_agents vs stub nid) = length vs"
  by (simp add: build_agents_def)

lemma build_agents_rank:
  assumes "distinct vs" and "i < length vs"
  shows "goalIndex (build_agents vs stub nid ! i) = int (card {u \<in> set vs. u < vs ! i})"
proof -
  have "indexOf (sort vs) (vs ! i) = int (card {u \<in> set (sort vs). u < vs ! i})"
    using assms by (intro indexOf_sorted_rank) auto
  with assms(2) show ?thesis
    by (simp add: build_agents_nth new_Agent_def)
qed

lemma rank_one_to_five:
  fixes v :: int
  assumes "v \<in> {5, 3, 1, 4, 2}"
  shows "int (card {u \<in> {5, 3, 1, 4, 2}. u < v}) = v - 1"
proof -
  have "{u \<in> {5, 3, 1, 4, 2::int}. u < v} = {1..<v}"
    using assms by auto
  moreover from assms have "1 \<le> v" by auto
  ultimately show ?thesis by simp
qed

text \<open>
  C7: the agents that \<open>reset\<close> builds from a list of distinct values. Agent \<open>i\<close> holds
  \<open>values[i]\<close> and its goal is the rank of that value, the number of values below it.
  For any arrangement of the values 5, 3, 1, 4, 2 the agent holding 1 has goal 0,
  the one holding 2 has goal 1, and so on: the goal is the value minus 1.
\<close>

theorem goal_assignment_rank:
  assumes "distinct vs"
  shows "length (build_agents vs stub nid) = length vs \<and>
         (\<forall>i < length vs.
            val (build_agents vs stub nid ! i) = vs ! i \<and>
            goalIndex (build_agents vs stub nid ! i) = int (card {u \<in> set vs. u < vs ! i})) \<and>
         (mset vs = mset [5, 3, 1, 4, 2] \<longrightarrow>
            (\<forall>a \<in> set (build_agents vs stub nid). goalIndex a = val a - 1))"
proof (intro conjI allI impI ballI)
  show "length (build_agents vs stub nid) = length vs" by (rule length_build_agents)
next
  fix i assume "i < length vs"
  then show "val (build_agents vs stub nid ! i) = vs ! i"
    by (simp add: build_agents_nth new_Agent_def)
next
  fix i assume "i < length vs"
  with assms show "goalIndex (build_agents vs stub nid ! i) = int (card {u \<in> set vs. u < vs ! i})"
    by (rule build_agents_rank)
next
  fix a
  assume m: "mset vs = mset [5, 3, 1, 4, 2]" and a: "a \<in> set (build_agents vs stub nid)"
  from m have s: "set vs = {5, 3, 1, 4, 2}"
    using mset_eq_setD by fastforce
  from a obtain i where i: "i < length vs" and ai: "a = build_agents vs stub nid ! i"
    by (auto simp: in_set_conv_nth length_build_agents)
  from i have v: "val a = vs ! i" by (simp add: ai build_agents_nth new_Agent_def)
  from i s have "vs ! i \<in> {5, 3, 1, 4, 2}" using nth_mem by blast
  from rank_one_to_five [OF this] build_agents_rank [OF assms i, of stub nid] s v ai
  show "goalIndex a = val a - 1" by simp
qed

theorem goal_assignment_rank_witness:
  "map (\<lambda>a. (val a, goalIndex a)) (build_agents [5, 3, 1, 4, 2] 0.3 0)
     = [(5, 4), (3, 2), (1, 0), (4, 3), (2, 1)]"
proof -
  have d: "distinct [5, 3, 1, 4, 2::int]" by simp
  have l: "[0..<5] = [0, 1, 2, 3, 4]" by (simp add: upt_rec)
  from goal_assignment_rank [OF d, of "0.3" 0]
  show ?thesis
    by (simp add: build_agents_def new_Agent_def l)
qed

section \<open>Forced pushes\<close>

lemma decide_reroute:
  assumes "\<not> atGoal a" and "waitTicks a = 0"
    and "(if distanceToGoal a > 0 then r else l) \<noteq> None"
    and "jamCount a \<ge> patience a"
  shows "decide a l r =
           (a\<lparr>jamCount := 0, state := REROUTING\<rparr>,
            \<lparr>action = Push, direction = - (if distanceToGoal a > 0 then 1 else - 1)\<rparr>)"
  using assms by (auto simp: decide_def Let_def)

text \<open>
  C3, as the code has it. An agent that is not at its goal, has no cooldown left, has
  a neighbour on the side of its goal and has been jammed \<open>patience\<close> times or more
  resets its jam count, becomes \<open>rerouting\<close> and returns a push away from its goal.
  The resolution pass applies its three skip tests to a push as to any intent. When
  the index \<open>i\<close> of the agent is not yet consumed and the target \<open>j = i + direction\<close>
  is in bounds and not yet consumed, it swaps the two agents without calling
  \<open>considerSwap\<close> (no draw is used), marks \<open>i\<close> and \<open>j\<close> consumed, increments
  \<open>reroutes\<close> and \<open>swaps\<close> and logs the reroute. In every other case (\<open>i\<close> consumed,
  \<open>j\<close> below 0, \<open>j\<close> past the last index, \<open>j\<close> consumed) the push is skipped: the
  iteration changes nothing.
\<close>

theorem forced_push:
  assumes "\<not> atGoal a" and "waitTicks a = 0"
    and "(if distanceToGoal a > 0 then r else l) \<noteq> None"
    and "jamCount a \<ge> patience a"
    and "intents i = Some (snd (decide a l r))"
    and "i < length (agents (r_sim st))"
  shows "decide a l r =
           (a\<lparr>jamCount := 0, state := REROUTING\<rparr>,
            \<lparr>action = Push, direction = - (if distanceToGoal a > 0 then 1 else - 1)\<rparr>) \<and>
         (if i \<notin> swappedThisTick st \<and>
             0 \<le> int i + direction (snd (decide a l r)) \<and>
             int i + direction (snd (decide a l r)) < int (length (agents (r_sim st))) \<and>
             nat (int i + direction (snd (decide a l r))) \<notin> swappedThisTick st
          then
            (let j = nat (int i + direction (snd (decide a l r)));
                 st' = st\<lparr>r_sim := (swap (r_sim st) i j)\<lparr>reroutes := reroutes (r_sim st) + 1\<rparr>,
                          swappedThisTick := insert j (insert i (swappedThisTick st)),
                          r_out := r_out st @ [OnLog (LogRoute (val (agents (r_sim st) ! i)) i j)]\<rparr>
             in resolve_one i intents st = Inr st' \<and>
                agents (r_sim st') =
                  (agents (r_sim st))[i := notifySwap (agents (r_sim st) ! j) (int i),
                                      j := notifySwap (agents (r_sim st) ! i) (int j)] \<and>
                reroutes (r_sim st') = reroutes (r_sim st) + 1 \<and>
                swaps (r_sim st') = swaps (r_sim st) + 1 \<and>
                jams (r_sim st') = jams (r_sim st) \<and>
                r_rng st' = r_rng st)
          else resolve_one i intents st = Inr st)"
proof -
  have d: "decide a l r =
           (a\<lparr>jamCount := 0, state := REROUTING\<rparr>,
            \<lparr>action = Push, direction = - (if distanceToGoal a > 0 then 1 else - 1)\<rparr>)"
    using assms(1-4) by (rule decide_reroute)
  then have it: "action (snd (decide a l r)) = Push" "direction (snd (decide a l r)) \<noteq> 0"
    by simp_all
  let ?j = "int i + direction (snd (decide a l r))"
  show ?thesis
  proof (cases "i \<notin> swappedThisTick st \<and> 0 \<le> ?j \<and> ?j < int (length (agents (r_sim st))) \<and>
                nat ?j \<notin> swappedThisTick st")
    case True
    with assms(5,6) it
    have "resolve_one i intents st =
          Inr (st\<lparr>r_sim := (swap (r_sim st) i (nat ?j))\<lparr>reroutes := reroutes (r_sim st) + 1\<rparr>,
                   swappedThisTick := insert (nat ?j) (insert i (swappedThisTick st)),
                   r_out := r_out st @ [OnLog (LogRoute (val (agents (r_sim st) ! i)) i (nat ?j))]\<rparr>)"
      by (simp add: resolve_one_def Let_def)
    with d show ?thesis
      unfolding if_P [OF True] by (simp add: Let_def swap_def)
  next
    case False
    with assms(5) it have "resolve_one i intents st = Inr st"
      by (auto simp: resolve_one_def Let_def)
    with d show ?thesis
      unfolding if_not_P [OF False] by (intro conjI)
  qed
qed

lemma shuffle3_identity: "shuffle [a, b, c] (const_rng (9/10)) = ([a, b, c], const_rng (9/10))"
  by (simp add: shuffle_def Math_random_def const_rng_def numeral_eq_Suc)

text \<open>
  The push is not always carried out. The agent at index 0 whose goal lies to its
  right satisfies every condition of the claim and returns a push to the left; its
  target is index \<open>-1\<close>, the resolution pass skips the intent, and after the tick
  \<open>reroutes\<close> is still 0 and the agent still stands at index 0.
\<close>

theorem forced_push_skipped_at_edge:
  "decide (agents edge_sim ! 0) None (Some (agents edge_sim ! 1))
     = ((agents edge_sim ! 0)\<lparr>jamCount := 0, state := REROUTING\<rparr>,
        \<lparr>action = Push, direction = - 1\<rparr>) \<and>
   \<not> isl (tick edge_sim (const_rng (9/10))) \<and>
   reroutes (fst (projr (tick edge_sim (const_rng (9/10))))) = 0 \<and>
   agents (fst (projr (tick edge_sim (const_rng (9/10))))) ! 0
     = (agents edge_sim ! 0)\<lparr>jamCount := 0, state := REROUTING\<rparr>"
proof -
  have d: "decide (agents edge_sim ! 0) None (Some (agents edge_sim ! 1))
     = ((agents edge_sim ! 0)\<lparr>jamCount := 0, state := REROUTING\<rparr>,
        \<lparr>action = Push, direction = - 1\<rparr>)"
    by (simp add: edge_sim_def decide_def atGoal_def distanceToGoal_def new_Agent_def Let_def)
  have t: "tick edge_sim (const_rng (9/10)) =
      Inr (edge_sim\<lparr>agents := [(agents edge_sim ! 0)\<lparr>jamCount := 0, state := REROUTING\<rparr>,
                               notifySwap ((agents edge_sim ! 2)\<lparr>state := MOVING\<rparr>) 1,
                               notifySwap ((agents edge_sim ! 1)\<lparr>state := MOVING\<rparr>) 2],
                    step := 10, swaps := 1\<rparr>,
           const_rng (9/10),
           [OnTick (snapshot (edge_sim\<lparr>agents := [(agents edge_sim ! 0)\<lparr>jamCount := 0, state := REROUTING\<rparr>,
                               notifySwap ((agents edge_sim ! 2)\<lparr>state := MOVING\<rparr>) 1,
                               notifySwap ((agents edge_sim ! 1)\<lparr>state := MOVING\<rparr>) 2],
                    step := 10, swaps := 1\<rparr>))])"
    unfolding tick_def
    apply (simp add: isSorted_def atGoal_def edge_sim_def new_Agent_def)
    apply (simp add: shuffle3_identity)
    apply (simp add: decide_def atGoal_def distanceToGoal_def Let_def)
    apply (simp add: resolve_one_def Let_def considerSwap_def distanceToGoal_def swap_def)
    done
  from d t show ?thesis by (simp add: edge_sim_def)
qed

theorem forced_push_witness:
  "decide ((new_Agent 1 3 1 2 0.3)\<lparr>jamCount := 3\<rparr>) (Some (agents mid_sim ! 0)) (Some (agents mid_sim ! 2))
     = ((new_Agent 1 3 1 2 0.3)\<lparr>jamCount := 0, state := REROUTING\<rparr>,
        \<lparr>action = Push, direction = - 1\<rparr>) \<and>
   resolve_one 1 [1 \<mapsto> \<lparr>action = Push, direction = - 1\<rparr>]
       \<lparr>r_sim = mid_sim, swappedThisTick = {}, r_rng = const_rng 0, r_out = []\<rparr>
     = Inr \<lparr>r_sim = mid_sim\<lparr>agents := [notifySwap (agents mid_sim ! 1) 0,
                                         notifySwap (agents mid_sim ! 0) 1,
                                         agents mid_sim ! 2],
                              swaps := 1, reroutes := 1\<rparr>,
            swappedThisTick = {0, 1}, r_rng = const_rng 0,
            r_out = [OnLog (LogRoute 3 1 0)]\<rparr> \<and>
   resolve_one 1 [1 \<mapsto> \<lparr>action = Push, direction = - 1\<rparr>]
       \<lparr>r_sim = mid_sim, swappedThisTick = {0}, r_rng = const_rng 0, r_out = []\<rparr>
     = Inr \<lparr>r_sim = mid_sim, swappedThisTick = {0}, r_rng = const_rng 0, r_out = []\<rparr>"
proof -
  let ?a = "(new_Agent 1 3 1 2 0.3)\<lparr>jamCount := 3\<rparr>"
  let ?l = "Some (agents mid_sim ! 0)"
  let ?r = "Some (agents mid_sim ! 2)"
  let ?m = "[1 \<mapsto> \<lparr>action = Push, direction = - 1\<rparr>] :: nat \<rightharpoonup> intent"
  let ?st = "\<lparr>r_sim = mid_sim, swappedThisTick = {}, r_rng = const_rng 0, r_out = []\<rparr>"
  let ?su = "\<lparr>r_sim = mid_sim, swappedThisTick = {0}, r_rng = const_rng 0, r_out = []\<rparr>"
  have d: "decide ?a ?l ?r = (?a\<lparr>jamCount := 0, state := REROUTING\<rparr>, \<lparr>action = Push, direction = - 1\<rparr>)"
    by (simp add: decide_def atGoal_def distanceToGoal_def new_Agent_def Let_def mid_sim_def)
  have dd: "snd (decide ?a ?l ?r) = \<lparr>action = Push, direction = - 1\<rparr>"
    using d by simp
  have h1: "\<not> atGoal ?a" by (simp add: atGoal_def new_Agent_def)
  have h2: "waitTicks ?a = 0" by (simp add: new_Agent_def)
  have h3: "(if distanceToGoal ?a > 0 then ?r else ?l) \<noteq> None" by simp
  have h4: "jamCount ?a \<ge> patience ?a" by (simp add: new_Agent_def)
  have h5: "?m 1 = Some (snd (decide ?a ?l ?r))"
    using d by simp
  have h6: "1 < length (agents (r_sim ?st))" by (simp add: mid_sim_def)
  have h6': "1 < length (agents (r_sim ?su))" by (simp add: mid_sim_def)
  have len: "length (agents mid_sim) = 3" by (simp add: mid_sim_def)
  from forced_push [where a = ?a and l = ?l and r = ?r and i = 1 and st = ?st
                     and intents = ?m, OF h1 h2 h3 h4 h5 h6]
  have carried: "resolve_one 1 ?m ?st
          = Inr (?st\<lparr>r_sim := (swap mid_sim 1 0)\<lparr>reroutes := reroutes mid_sim + 1\<rparr>,
                      swappedThisTick := {0, 1},
                      r_out := [OnLog (LogRoute (val (agents mid_sim ! 1)) 1 0)]\<rparr>)"
    unfolding dd Let_def by (simp add: insert_commute len)
  from forced_push [where a = ?a and l = ?l and r = ?r and i = 1 and st = ?su
                     and intents = ?m, OF h1 h2 h3 h4 h5 h6']
  have skipped: "resolve_one 1 ?m ?su = Inr ?su"
    unfolding dd by (simp add: len)
  from carried skipped show ?thesis
    using d by (simp add: swap_def mid_sim_def new_Agent_def)
qed

section \<open>The permutation invariant\<close>

subsection \<open>The shuffle permutes\<close>

lemma valid_rng_tail: "valid_rng rnd \<Longrightarrow> valid_rng (snd (Math_random rnd))"
  by (simp add: valid_rng_def Math_random_def)

lemma valid_rng_head: "valid_rng rnd \<Longrightarrow> 0 \<le> fst (Math_random rnd) \<and> fst (Math_random rnd) < 1"
  by (simp add: valid_rng_def Math_random_def)

lemma draw_index_bound:
  assumes "0 \<le> r" and "r < 1"
  shows "nat \<lfloor>r * real (Suc i + 1)\<rfloor> \<le> Suc i"
proof -
  have "r * real (Suc i + 1) < real (Suc i + 1)"
    using assms by simp
  then have "\<lfloor>r * real (Suc i + 1)\<rfloor> < int (Suc i + 1)"
    by (simp add: floor_less_iff)
  then show ?thesis by simp
qed

lemma shuffle_from_perm:
  "valid_rng rnd \<Longrightarrow> i < length arr \<or> i = 0 \<Longrightarrow>
   mset (fst (shuffle_from i arr rnd)) = mset arr \<and> valid_rng (snd (shuffle_from i arr rnd))"
proof (induction i arbitrary: arr rnd)
  case 0
  then show ?case by simp
next
  case (Suc i)
  let ?r = "fst (Math_random rnd)"
  let ?rnd' = "snd (Math_random rnd)"
  let ?j = "nat \<lfloor>?r * real (Suc i + 1)\<rfloor>"
  let ?arr' = "arr[Suc i := arr ! ?j, ?j := arr ! Suc i]"
  from Suc.prems have len: "Suc i < length arr" by simp
  from Suc.prems(1) have j: "?j \<le> Suc i"
    using valid_rng_head draw_index_bound by blast
  with len have jl: "?j < length arr" by simp
  have m: "mset ?arr' = mset arr"
    using len jl by (simp add: mset_swap)
  have v: "valid_rng ?rnd'" using Suc.prems(1) by (rule valid_rng_tail)
  have "i < length ?arr' \<or> i = 0" using len by simp
  from Suc.IH [OF v this] m
  have "mset (fst (shuffle_from i ?arr' ?rnd')) = mset arr \<and>
        valid_rng (snd (shuffle_from i ?arr' ?rnd'))" by simp
  then show ?case
    by (simp add: case_prod_unfold Let_def)
qed

lemma shuffle_perm:
  assumes "valid_rng rnd"
  shows "mset (fst (shuffle arr rnd)) = mset arr \<and> valid_rng (snd (shuffle arr rnd))"
proof -
  have "length arr - 1 < length arr \<or> length arr - 1 = 0" by (cases arr) auto
  from shuffle_from_perm [OF assms this] show ?thesis by (simp add: shuffle_def)
qed

subsection \<open>Frames of the agent operations\<close>

lemma decide_frame:
  "pos (fst (decide a l r)) = pos a \<and> ident_goal (fst (decide a l r)) = ident_goal a"
  by (simp add: decide_def ident_goal_def Let_def)

lemma notifyJam_frame:
  "pos (notifyJam a) = pos a \<and> ident_goal (notifyJam a) = ident_goal a"
  by (simp add: notifyJam_def ident_goal_def)

lemma notifySwap_frame:
  "pos (notifySwap a p) = p \<and> ident_goal (notifySwap a p) = ident_goal a"
  by (simp add: notifySwap_def ident_goal_def)

lemma positions_ok_update:
  assumes "positions_ok as" and "pos a = int i"
  shows "positions_ok (as[i := a])"
  unfolding positions_ok_def
proof (intro allI impI)
  fix k assume "k < length (as[i := a])"
  then have k: "k < length as" by simp
  show "pos (as[i := a] ! k) = int k"
  proof (cases "k = i")
    case True
    with k assms(2) show ?thesis by simp
  next
    case False
    with k assms(1) show ?thesis by (simp add: positions_ok_def)
  qed
qed

lemma map_update_same:
  "i < length as \<Longrightarrow> f a = f (as ! i) \<Longrightarrow> map f (as[i := a]) = map f as"
  by (simp add: map_update list_update_same_conv)

subsection \<open>The collection pass\<close>

lemma collect_frame:
  "collect order s m = Inr (s', m') \<Longrightarrow>
   length (agents s') = length (agents s) \<and>
   map pos (agents s') = map pos (agents s) \<and>
   map ident_goal (agents s') = map ident_goal (agents s) \<and>
   dom m' = dom m \<union> set order \<and>
   step s' = step s \<and> swaps s' = swaps s \<and> jams s' = jams s \<and> reroutes s' = reroutes s"
proof (induction order arbitrary: s m)
  case Nil
  then show ?case by simp
next
  case (Cons k rest)
  from Cons.prems have k: "k < length (agents s)"
    by (simp split: if_splits)
  let ?l = "if k > 0 then Some (agents s ! (k - 1)) else None"
  let ?r = "if k < length (agents s) - 1 then Some (agents s ! (k + 1)) else None"
  let ?a' = "fst (decide (agents s ! k) ?l ?r)"
  let ?it = "snd (decide (agents s ! k) ?l ?r)"
  let ?s1 = "s\<lparr>agents := (agents s)[k := ?a']\<rparr>"
  from Cons.prems k
  have c: "collect rest ?s1 (m(k \<mapsto> ?it)) = Inr (s', m')"
    by (simp add: Let_def case_prod_unfold)
  have p: "map pos (agents ?s1) = map pos (agents s)"
    using k by (simp add: map_update_same decide_frame)
  have g: "map ident_goal (agents ?s1) = map ident_goal (agents s)"
    using k by (simp add: map_update_same decide_frame)
  from Cons.IH [OF c] p g show ?case by auto
qed

lemma collect_total:
  "\<forall>i \<in> set order. i < length (agents s) \<Longrightarrow> \<exists>s' m'. collect order s m = Inr (s', m')"
proof (induction order arbitrary: s m)
  case Nil
  then show ?case by simp
next
  case (Cons k rest)
  then have k: "k < length (agents s)" by simp
  let ?l = "if k > 0 then Some (agents s ! (k - 1)) else None"
  let ?r = "if k < length (agents s) - 1 then Some (agents s ! (k + 1)) else None"
  let ?a' = "fst (decide (agents s ! k) ?l ?r)"
  let ?it = "snd (decide (agents s ! k) ?l ?r)"
  let ?s1 = "s\<lparr>agents := (agents s)[k := ?a']\<rparr>"
  from Cons.prems have "\<forall>i \<in> set rest. i < length (agents ?s1)" by simp
  from Cons.IH [OF this, of "m(k \<mapsto> ?it)"]
  obtain s' m' where "collect rest ?s1 (m(k \<mapsto> ?it)) = Inr (s', m')" by blast
  with k have "collect (k # rest) s m = Inr (s', m')"
    by (simp add: Let_def case_prod_unfold)
  then show ?case by blast
qed

subsection \<open>One iteration of the resolution loop\<close>

lemma resolve_one_cases:
  assumes "resolve_one i m st = Inr st'"
  obtains (skip) "st' = st"
  | (push) it j where "m i = Some it" and "action it = Push" and "direction it \<noteq> 0"
      and "i \<notin> swappedThisTick st" and "i < length (agents (r_sim st))"
      and "j < length (agents (r_sim st))" and "int j = int i + direction it"
      and "j \<notin> swappedThisTick st"
      and "st' = st\<lparr>r_sim := (swap (r_sim st) i j)\<lparr>reroutes := reroutes (r_sim st) + 1\<rparr>,
                      swappedThisTick := insert j (insert i (swappedThisTick st)),
                      r_out := r_out st @ [OnLog (LogRoute (val (agents (r_sim st) ! i)) i j)]\<rparr>"
  | (accept) it j where "m i = Some it" and "action it \<noteq> Push" and "direction it \<noteq> 0"
      and "i \<notin> swappedThisTick st" and "i < length (agents (r_sim st))"
      and "j < length (agents (r_sim st))" and "int j = int i + direction it"
      and "j \<notin> swappedThisTick st"
      and "fst (considerSwap (agents (r_sim st) ! j) (- direction it) (r_rng st))"
      and "st' = st\<lparr>r_sim := swap (r_sim st) i j,
                      swappedThisTick := insert j (insert i (swappedThisTick st)),
                      r_rng := snd (considerSwap (agents (r_sim st) ! j) (- direction it) (r_rng st))\<rparr>"
  | (jam) it j where "m i = Some it" and "action it \<noteq> Push" and "direction it \<noteq> 0"
      and "i \<notin> swappedThisTick st" and "i < length (agents (r_sim st))"
      and "j < length (agents (r_sim st))" and "int j = int i + direction it"
      and "j \<notin> swappedThisTick st"
      and "\<not> fst (considerSwap (agents (r_sim st) ! j) (- direction it) (r_rng st))"
      and "st' = st\<lparr>r_sim := (r_sim st)
                        \<lparr>agents := (agents (r_sim st))[i := notifyJam (agents (r_sim st) ! i)],
                         jams := jams (r_sim st) + 1\<rparr>,
                      r_rng := snd (considerSwap (agents (r_sim st) ! j) (- direction it) (r_rng st)),
                      r_out := r_out st @ [OnLog (LogJam (val (agents (r_sim st) ! i)) i
                                             (val (agents (r_sim st) ! j)))]\<rparr>"
proof (cases "st' = st")
  case True
  then show ?thesis by (rule skip)
next
  case ne: False
  from assms ne have ni: "i \<notin> swappedThisTick st"
    by (auto simp: resolve_one_def)
  from assms ni obtain it where it: "m i = Some it"
    by (cases "m i") (auto simp: resolve_one_def)
  from assms ne ni it have d: "direction it \<noteq> 0"
    by (auto simp: resolve_one_def)
  define j where "j = nat (int i + direction it)"
  from assms ne ni it d have r: "0 \<le> int i + direction it"
      "int i + direction it < int (length (agents (r_sim st)))"
    by (auto simp: resolve_one_def Let_def split: if_splits)
  then have jl: "j < length (agents (r_sim st))" and ji: "int j = int i + direction it"
    by (simp_all add: j_def)
  from assms ne ni it d r have nj: "j \<notin> swappedThisTick st"
    by (auto simp: resolve_one_def Let_def j_def split: if_splits)
  from assms ni it d r nj have il: "i < length (agents (r_sim st))"
    by (auto simp: resolve_one_def Let_def j_def split: if_splits)
  show ?thesis
  proof (cases "action it = Push")
    case True
    with assms ni it d r nj il
    have "st' = st\<lparr>r_sim := (swap (r_sim st) i j)\<lparr>reroutes := reroutes (r_sim st) + 1\<rparr>,
                      swappedThisTick := insert j (insert i (swappedThisTick st)),
                      r_out := r_out st @ [OnLog (LogRoute (val (agents (r_sim st) ! i)) i j)]\<rparr>"
      by (simp add: resolve_one_def Let_def j_def)
    with it True d ni il jl ji nj show ?thesis by (rule push)
  next
    case np: False
    show ?thesis
    proof (cases "fst (considerSwap (agents (r_sim st) ! j) (- direction it) (r_rng st))")
      case True
      with assms ni it d r nj il np
      have "st' = st\<lparr>r_sim := swap (r_sim st) i j,
                      swappedThisTick := insert j (insert i (swappedThisTick st)),
                      r_rng := snd (considerSwap (agents (r_sim st) ! j) (- direction it) (r_rng st))\<rparr>"
        by (simp add: resolve_one_def Let_def j_def case_prod_unfold)
      with it np d ni il jl ji nj True show ?thesis by (rule accept)
    next
      case False
      with assms ni it d r nj il np
      have "st' = st\<lparr>r_sim := (r_sim st)
                        \<lparr>agents := (agents (r_sim st))[i := notifyJam (agents (r_sim st) ! i)],
                         jams := jams (r_sim st) + 1\<rparr>,
                      r_rng := snd (considerSwap (agents (r_sim st) ! j) (- direction it) (r_rng st)),
                      r_out := r_out st @ [OnLog (LogJam (val (agents (r_sim st) ! i)) i
                                             (val (agents (r_sim st) ! j)))]\<rparr>"
        by (simp add: resolve_one_def Let_def j_def case_prod_unfold)
      with it np d ni il jl ji nj False show ?thesis by (rule jam)
    qed
  qed
qed

lemma resolve_one_total:
  assumes "m i \<noteq> None" and "i < length (agents (r_sim st))"
  shows "\<exists>st'. resolve_one i m st = Inr st'"
proof -
  from assms(1) obtain it where "m i = Some it" by auto
  with assms(2) show ?thesis
    by (simp add: resolve_one_def Let_def case_prod_unfold)
qed

lemma considerSwap_valid_rng:
  "valid_rng rnd \<Longrightarrow> valid_rng (snd (considerSwap a d rnd))"
  by (simp add: considerSwap_def Let_def case_prod_unfold valid_rng_tail)

lemma swap_length: "length (agents (swap s i j)) = length (agents s)"
  by (simp add: swap_def Let_def)

lemma swap_positions_ok:
  "positions_ok (agents s) \<Longrightarrow> positions_ok (agents (swap s i j))"
  by (simp add: swap_def Let_def positions_ok_update notifySwap_frame)

lemma swap_ident_goal:
  assumes "i < length (agents s)" and "j < length (agents s)"
  shows "image_mset ident_goal (mset (agents (swap s i j))) = image_mset ident_goal (mset (agents s))"
proof -
  let ?ks = "map ident_goal (agents s)"
  have e: "map ident_goal (agents (swap s i j)) = ?ks[i := ?ks ! j, j := ?ks ! i]"
    using assms by (simp add: swap_def Let_def map_update notifySwap_frame)
  have "mset (?ks[i := ?ks ! j, j := ?ks ! i]) = mset ?ks"
    by (rule mset_swap) (use assms in simp_all)
  then have "mset (map ident_goal (agents (swap s i j))) = mset ?ks"
    by (simp only: e)
  then show ?thesis by simp
qed

lemma resolve_one_inv:
  assumes "resolve_one i m st = Inr st'"
  shows "length (agents (r_sim st')) = length (agents (r_sim st)) \<and>
         (positions_ok (agents (r_sim st)) \<longrightarrow> positions_ok (agents (r_sim st'))) \<and>
         image_mset ident_goal (mset (agents (r_sim st')))
           = image_mset ident_goal (mset (agents (r_sim st))) \<and>
         (valid_rng (r_rng st) \<longrightarrow> valid_rng (r_rng st'))"
  using assms
proof (cases rule: resolve_one_cases)
  case skip
  then show ?thesis by simp
next
  case (push it j)
  then show ?thesis
    by (simp add: swap_length swap_positions_ok swap_ident_goal)
next
  case (accept it j)
  then show ?thesis
    by (simp add: swap_length swap_positions_ok swap_ident_goal considerSwap_valid_rng)
next
  case (jam it j)
  let ?as = "agents (r_sim st)"
  have p: "positions_ok ?as \<longrightarrow> positions_ok (?as[i := notifyJam (?as ! i)])"
  proof
    assume ok: "positions_ok ?as"
    with jam(5) have "pos (notifyJam (?as ! i)) = int i"
      by (simp add: notifyJam_frame positions_ok_def)
    with ok show "positions_ok (?as[i := notifyJam (?as ! i)])"
      by (rule positions_ok_update)
  qed
  have "map ident_goal (?as[i := notifyJam (?as ! i)]) = map ident_goal ?as"
    using jam(5) by (simp add: map_update_same notifyJam_frame)
  then have "mset (map ident_goal (?as[i := notifyJam (?as ! i)])) = mset (map ident_goal ?as)"
    by (simp only:)
  with p jam show ?thesis
    by (simp add: considerSwap_valid_rng)
qed

subsection \<open>The resolution pass\<close>

lemma resolve_inv:
  "resolve order m st = Inr st' \<Longrightarrow>
   length (agents (r_sim st')) = length (agents (r_sim st)) \<and>
   (positions_ok (agents (r_sim st)) \<longrightarrow> positions_ok (agents (r_sim st'))) \<and>
   image_mset ident_goal (mset (agents (r_sim st')))
     = image_mset ident_goal (mset (agents (r_sim st))) \<and>
   (valid_rng (r_rng st) \<longrightarrow> valid_rng (r_rng st'))"
proof (induction order arbitrary: st)
  case Nil
  then show ?case by simp
next
  case (Cons i rest)
  from Cons.prems obtain st1 where one: "resolve_one i m st = Inr st1"
    and more: "resolve rest m st1 = Inr st'"
    by (cases "resolve_one i m st") auto
  from resolve_one_inv [OF one] Cons.IH [OF more] show ?case by simp
qed

lemma resolve_total:
  "\<forall>i \<in> set order. m i \<noteq> None \<and> i < length (agents (r_sim st)) \<Longrightarrow>
   \<exists>st'. resolve order m st = Inr st'"
proof (induction order arbitrary: st)
  case Nil
  then show ?case by simp
next
  case (Cons i rest)
  then have "m i \<noteq> None" and "i < length (agents (r_sim st))" by simp_all
  from resolve_one_total [of m i st, OF this] obtain st1 where one: "resolve_one i m st = Inr st1" ..
  from resolve_one_inv [OF one] Cons.prems
  have "\<forall>k \<in> set rest. m k \<noteq> None \<and> k < length (agents (r_sim st1))" by simp
  from Cons.IH [OF this] one show ?case by simp
qed

subsection \<open>A tick\<close>

lemma shuffle_order_set:
  assumes "valid_rng rnd"
  shows "set (fst (shuffle [0..<n] rnd)) = {0..<n}"
proof -
  from shuffle_perm [OF assms, of "[0..<n]"]
  have "set_mset (mset (fst (shuffle [0..<n] rnd))) = set_mset (mset [0..<n])" by simp
  then show ?thesis by simp
qed

lemma tick_unsorted:
  assumes "\<not> isSorted s" and "valid_rng rnd"
  shows "\<exists>s2 m st.
           collect (fst (shuffle [0..<length (agents s)] rnd)) (s\<lparr>step := step s + 1\<rparr>) Map.empty
             = Inr (s2, m) \<and>
           resolve (fst (shuffle [0..<length (agents s)] rnd)) m
               \<lparr>r_sim = s2, swappedThisTick = {}, r_rng = snd (shuffle [0..<length (agents s)] rnd),
                r_out = []\<rparr> = Inr st \<and>
           tick s rnd = Inr (if running (r_sim st) then schedule (r_sim st) else r_sim st,
                             r_rng st, r_out st @ [OnTick (snapshot (r_sim st))])"
proof -
  let ?order = "fst (shuffle [0..<length (agents s)] rnd)"
  let ?s1 = "s\<lparr>step := step s + 1\<rparr>"
  have os: "set ?order = {0..<length (agents s)}"
    using assms(2) by (rule shuffle_order_set)
  then have "\<forall>i \<in> set ?order. i < length (agents ?s1)" by simp
  from collect_total [OF this, of Map.empty]
  obtain s2 m where c: "collect ?order ?s1 Map.empty = Inr (s2, m)" by blast
  from collect_frame [OF c] os
  have "\<forall>i \<in> set ?order. m i \<noteq> None \<and> i < length (agents s2)" by auto
  then have "\<forall>i \<in> set ?order. m i \<noteq> None \<and>
       i < length (agents (r_sim \<lparr>r_sim = s2, swappedThisTick = {},
                               r_rng = snd (shuffle [0..<length (agents s)] rnd), r_out = []\<rparr>))"
    by simp
  from resolve_total [OF this]
  obtain st where r: "resolve ?order m \<lparr>r_sim = s2, swappedThisTick = {},
                        r_rng = snd (shuffle [0..<length (agents s)] rnd), r_out = []\<rparr> = Inr st"
    by blast
  from assms(1) c r
  have "tick s rnd = Inr (if running (r_sim st) then schedule (r_sim st) else r_sim st,
                          r_rng st, r_out st @ [OnTick (snapshot (r_sim st))])"
    by (simp add: tick_def Let_def case_prod_unfold)
  with c r show ?thesis by blast
qed

lemma tick_total:
  assumes "valid_rng rnd"
  shows "\<exists>s' rnd' out. tick s rnd = Inr (s', rnd', out)"
proof (cases "isSorted s")
  case True
  then show ?thesis by (simp add: tick_def Let_def)
next
  case False
  from tick_unsorted [OF False assms] show ?thesis by blast
qed

lemma tick_inv:
  assumes "tick s rnd = Inr (s', rnd', out)" and "valid_rng rnd"
  shows "length (agents s') = length (agents s) \<and>
         (positions_ok (agents s) \<longrightarrow> positions_ok (agents s')) \<and>
         image_mset ident_goal (mset (agents s')) = image_mset ident_goal (mset (agents s)) \<and>
         valid_rng rnd'"
proof (cases "isSorted s")
  case True
  with assms(1) have s': "s' = (stop s)\<lparr>agents := map (\<lambda>a. a\<lparr>state := SATISFIED\<rparr>) (agents (stop s))\<rparr>"
    and r: "rnd' = rnd"
    by (simp_all add: tick_def Let_def)
  have "map ident_goal (agents s') = map ident_goal (agents s)"
    by (simp add: s' stop_def ident_goal_def comp_def)
  then have "mset (map ident_goal (agents s')) = mset (map ident_goal (agents s))"
    by (simp only:)
  then have "image_mset ident_goal (mset (agents s')) = image_mset ident_goal (mset (agents s))"
    by simp
  with assms(2) r show ?thesis
    by (simp add: s' stop_def positions_ok_def)
next
  case False
  from tick_unsorted [OF False assms(2)]
  obtain s2 m st where
    c: "collect (fst (shuffle [0..<length (agents s)] rnd)) (s\<lparr>step := step s + 1\<rparr>) Map.empty
             = Inr (s2, m)"
    and r: "resolve (fst (shuffle [0..<length (agents s)] rnd)) m
               \<lparr>r_sim = s2, swappedThisTick = {}, r_rng = snd (shuffle [0..<length (agents s)] rnd),
                r_out = []\<rparr> = Inr st"
    and t: "tick s rnd = Inr (if running (r_sim st) then schedule (r_sim st) else r_sim st,
                             r_rng st, r_out st @ [OnTick (snapshot (r_sim st))])"
    by blast
  from t assms(1) have s': "agents s' = agents (r_sim st)" and r': "rnd' = r_rng st"
    by (auto simp: schedule_def)
  from collect_frame [OF c]
  have c1: "length (agents s2) = length (agents s)"
    and c2: "map pos (agents s2) = map pos (agents s)"
    and c3: "map ident_goal (agents s2) = map ident_goal (agents s)"
    by simp_all
  from c3 have c3': "mset (map ident_goal (agents s2)) = mset (map ident_goal (agents s))"
    by (simp only:)
  have c2': "positions_ok (agents s) \<longrightarrow> positions_ok (agents s2)"
  proof
    assume ok: "positions_ok (agents s)"
    show "positions_ok (agents s2)"
      unfolding positions_ok_def
    proof (intro allI impI)
      fix k assume k: "k < length (agents s2)"
      then have "pos (agents s2 ! k) = map pos (agents s2) ! k" by simp
      also have "\<dots> = map pos (agents s) ! k" by (simp only: c2)
      also have "\<dots> = int k" using ok k c1 by (simp add: positions_ok_def)
      finally show "pos (agents s2 ! k) = int k" .
    qed
  qed
  from shuffle_perm [OF assms(2), of "[0..<length (agents s)]"]
  have v: "valid_rng (snd (shuffle [0..<length (agents s)] rnd))" by simp
  from resolve_inv [OF r] c1 c2' c3' v s' r' show ?thesis by simp
qed

subsection \<open>Successive ticks\<close>

lemma ticks_inv:
  "valid_rng rnd \<Longrightarrow>
   \<exists>s' rnd'. ticks k s rnd = Inr (s', rnd') \<and>
     length (agents s') = length (agents s) \<and>
     (positions_ok (agents s) \<longrightarrow> positions_ok (agents s')) \<and>
     image_mset ident_goal (mset (agents s')) = image_mset ident_goal (mset (agents s)) \<and>
     valid_rng rnd'"
proof (induction k arbitrary: s rnd)
  case 0
  then show ?case by simp
next
  case (Suc k)
  from tick_total [OF Suc.prems, of s]
  obtain s1 rnd1 out where t: "tick s rnd = Inr (s1, rnd1, out)" by blast
  from tick_inv [OF t Suc.prems]
  have i1: "length (agents s1) = length (agents s)"
    "positions_ok (agents s) \<longrightarrow> positions_ok (agents s1)"
    "image_mset ident_goal (mset (agents s1)) = image_mset ident_goal (mset (agents s))"
    and v1: "valid_rng rnd1"
    by simp_all
  from Suc.IH [OF v1, of s1]
  obtain s' rnd' where "ticks k s1 rnd1 = Inr (s', rnd')"
    and "length (agents s') = length (agents s1)"
    and "positions_ok (agents s1) \<longrightarrow> positions_ok (agents s')"
    and "image_mset ident_goal (mset (agents s')) = image_mset ident_goal (mset (agents s1))"
    and "valid_rng rnd'"
    by blast
  with t i1 have "ticks (Suc k) s rnd = Inr (s', rnd') \<and>
     length (agents s') = length (agents s) \<and>
     (positions_ok (agents s) \<longrightarrow> positions_ok (agents s')) \<and>
     image_mset ident_goal (mset (agents s')) = image_mset ident_goal (mset (agents s)) \<and>
     valid_rng rnd'"
    by simp
  then show ?case by blast
qed

subsection \<open>Initialization\<close>

lemma indexOf_nth:
  "distinct xs \<Longrightarrow> i < length xs \<Longrightarrow> indexOf xs (xs ! i) = int i"
proof (induction xs arbitrary: i)
  case Nil
  then show ?case by simp
next
  case (Cons x xs)
  show ?case
  proof (cases i)
    case 0
    then show ?thesis by simp
  next
    case (Suc k)
    with Cons.prems have k: "k < length xs" and d: "distinct xs" and ne: "x \<noteq> xs ! k"
      by auto
    from Cons.IH [OF d k] Suc ne show ?thesis by (simp add: Let_def)
  qed
qed

lemma map_indexOf_self:
  assumes "distinct xs"
  shows "map (indexOf xs) xs = map int [0..<length xs]"
  by (rule nth_equalityI) (simp_all add: indexOf_nth [OF assms])

lemma build_agents_goals:
  assumes "distinct vs"
  shows "mset (map goalIndex (build_agents vs stub nid)) = mset (map int [0..<length vs])"
proof -
  have "map goalIndex (build_agents vs stub nid) = map (indexOf (sort vs)) vs"
    by (rule nth_equalityI) (simp_all add: build_agents_def new_Agent_def)
  then have "mset (map goalIndex (build_agents vs stub nid)) = mset (map (indexOf (sort vs)) vs)"
    by (simp only:)
  also have "\<dots> = image_mset (indexOf (sort vs)) (mset (sort vs))" by simp
  also have "\<dots> = mset (map (indexOf (sort vs)) (sort vs))" by simp
  also have "\<dots> = mset (map int [0..<length (sort vs)])"
    using assms by (simp only: map_indexOf_self distinct_sort)
  finally show ?thesis by simp
qed

lemma build_agents_positions: "positions_ok (build_agents vs stub nid)"
  by (simp add: positions_ok_def build_agents_def new_Agent_def)

lemma build_agents_ids: "distinct (map agent_id (build_agents vs stub nid))"
proof -
  have "map agent_id (build_agents vs stub nid) = map (\<lambda>i. nid + i) [0..<length vs]"
    by (rule nth_equalityI) (simp_all add: build_agents_def new_Agent_def)
  then show ?thesis by (simp add: distinct_map inj_on_def)
qed

lemma initial_values_set: "(\<lambda>i. int i + 1) ` {0..<n} = {1..int n}"
proof (rule set_eqI)
  fix x :: int
  show "x \<in> (\<lambda>i. int i + 1) ` {0..<n} \<longleftrightarrow> x \<in> {1..int n}"
  proof
    assume "x \<in> (\<lambda>i. int i + 1) ` {0..<n}"
    then show "x \<in> {1..int n}" by auto
  next
    assume x: "x \<in> {1..int n}"
    then have "nat (x - 1) \<in> {0..<n}" and "x = int (nat (x - 1)) + 1" by auto
    then show "x \<in> (\<lambda>i. int i + 1) ` {0..<n}" by (rule rev_image_eqI)
  qed
qed

lemma reset_result:
  assumes "reset s nid rnd = Inr (s0, nid', rnd0, out0)"
  shows "agents s0 = build_agents (fst (shuffle (map (\<lambda>i. int i + 1) [0..<nat (sim_count s)]) rnd))
                       (sim_stubbornness s) nid \<and>
         rnd0 = snd (shuffle (map (\<lambda>i. int i + 1) [0..<nat (sim_count s)]) rnd)"
  using assms
  by (auto simp: reset_def stop_def Let_def case_prod_unfold split: if_splits)

lemma reset_inv:
  assumes "reset s nid rnd = Inr (s0, nid', rnd0, out0)" and "valid_rng rnd"
  shows "positions_ok (agents s0) \<and>
         mset (map goalIndex (agents s0)) = mset (map int [0..<length (agents s0)]) \<and>
         distinct (map agent_id (agents s0)) \<and>
         (\<forall>a \<in> set (agents s0). goalIndex a = val a - 1) \<and>
         valid_rng rnd0"
proof -
  let ?init = "map (\<lambda>i. int i + 1) [0..<nat (sim_count s)]"
  let ?vs = "fst (shuffle ?init rnd)"
  from reset_result [OF assms(1)]
  have a: "agents s0 = build_agents ?vs (sim_stubbornness s) nid"
    and r: "rnd0 = snd (shuffle ?init rnd)" by simp_all
  from shuffle_perm [OF assms(2), of ?init]
  have m: "mset ?vs = mset ?init" and v: "valid_rng rnd0" by (simp_all add: r)
  have "distinct ?init" by (simp add: distinct_map inj_on_def)
  with m have d: "distinct ?vs" by (metis mset_eq_imp_distinct_iff)
  have g: "\<forall>a \<in> set (agents s0). goalIndex a = val a - 1"
  proof
    fix x assume "x \<in> set (agents s0)"
    then obtain i where i: "i < length ?vs" and x: "x = build_agents ?vs (sim_stubbornness s) nid ! i"
      by (auto simp: a in_set_conv_nth length_build_agents)
    from m have "set ?vs = set ?init" by (rule mset_eq_setD)
    then have s: "set ?vs = {1..int (nat (sim_count s))}"
      by (simp add: initial_values_set)
    with i have vi: "1 \<le> ?vs ! i" using nth_mem by fastforce
    have "{u \<in> set ?vs. u < ?vs ! i} = {1..<?vs ! i}"
      using s i nth_mem [OF i] by auto
    with build_agents_rank [OF d i, of "sim_stubbornness s" nid] vi
    have "goalIndex x = ?vs ! i - 1" by (simp add: x)
    with i show "goalIndex x = val x - 1"
      by (simp add: x build_agents_nth new_Agent_def)
  qed
  from build_agents_goals [OF d, of "sim_stubbornness s" nid] g v
  show ?thesis
    by (simp add: a build_agents_positions build_agents_ids length_build_agents del: mset_map)
qed

text \<open>
  C1: let \<open>reset\<close> (and so the constructor, which ends with it) return a simulation,
  and let any number \<open>k\<close> of ticks follow, \<open>k = 0\<close> being the state right after
  initialization. The ticks all return. Afterwards the agent at index \<open>i\<close> has
  \<open>pos = i\<close>, for every index, so the \<open>pos\<close> values are \<open>0, ..., n - 1\<close>, each once. The
  identifiers given at initialization are distinct, and the pairs of identifier and
  \<open>goalIndex\<close> are the same as at initialization: no agent's goal has changed. The
  \<open>goalIndex\<close> values are \<open>0, ..., n - 1\<close>, each once.
\<close>

theorem permutation_invariant:
  assumes "valid_rng rnd" and "reset s nid rnd = Inr (s0, nid', rnd0, out0)"
  shows "\<exists>s' rnd'. ticks k s0 rnd0 = Inr (s', rnd') \<and>
           length (agents s') = length (agents s0) \<and>
           map pos (agents s') = map int [0..<length (agents s0)] \<and>
           mset (map goalIndex (agents s')) = mset (map int [0..<length (agents s0)]) \<and>
           distinct (map agent_id (agents s0)) \<and>
           mset (map ident_goal (agents s')) = mset (map ident_goal (agents s0))"
proof -
  from reset_inv [OF assms(2) assms(1)]
  have p0: "positions_ok (agents s0)"
    and g0: "mset (map goalIndex (agents s0)) = mset (map int [0..<length (agents s0)])"
    and d0: "distinct (map agent_id (agents s0))"
    and v0: "valid_rng rnd0"
    by simp_all
  from ticks_inv [OF v0, of k s0] p0
  obtain s' rnd' where t: "ticks k s0 rnd0 = Inr (s', rnd')"
    and l: "length (agents s') = length (agents s0)"
    and p: "positions_ok (agents s')"
    and i: "image_mset ident_goal (mset (agents s')) = image_mset ident_goal (mset (agents s0))"
    by blast
  from p l have pm: "map pos (agents s') = map int [0..<length (agents s0)]"
    by (intro nth_equalityI) (simp_all add: positions_ok_def)
  from i have im: "mset (map ident_goal (agents s')) = mset (map ident_goal (agents s0))"
    by simp
  have "mset (map goalIndex (agents s')) = image_mset snd (mset (map ident_goal (agents s')))"
    by (simp add: ident_goal_def image_mset.compositionality comp_def)
  also have "\<dots> = image_mset snd (mset (map ident_goal (agents s0)))"
    by (simp only: im)
  also have "\<dots> = mset (map goalIndex (agents s0))"
    by (simp add: ident_goal_def image_mset.compositionality comp_def)
  finally have gm: "mset (map goalIndex (agents s')) = mset (map int [0..<length (agents s0)])"
    using g0 by simp
  from t l pm gm d0 im show ?thesis by blast
qed

lemma valid_cycle_rng: "valid_rng cycle_rng"
  by (simp add: valid_rng_def cycle_rng_def)

lemma cycle_rng_tail: "(\<lambda>k. cycle_rng (Suc (Suc k))) = const_rng (9 / 10)"
  by (simp add: cycle_rng_def const_rng_def)

lemma construct_cycle_start:
  "Simulation_new (Some 3) (Some 0) 0 cycle_rng
     = Inr (cycle_start, 3, const_rng (9 / 10), [OnTick (snapshot cycle_start)])"
proof -
  have sh: "shuffle [1, 2, 3::int] cycle_rng = ([2, 3, 1], const_rng (9 / 10))"
    by (simp add: shuffle_def Math_random_def numeral_eq_Suc cycle_rng_tail)
       (simp add: cycle_rng_def)
  have l: "[0..<3] = [0, 1, 2]" by (simp add: upt_rec)
  have b: "build_agents [2, 3, 1] 0 0 = agents cycle_start"
    by (simp add: build_agents_def l cycle_start_def numeral_2_eq_2)
  show ?thesis
    by (simp add: Simulation_new_def reset_def stop_def l sh b Let_def)
       (simp add: cycle_start_def)
qed

theorem permutation_invariant_witness:
  "\<exists>s' rnd'. ticks 5 cycle_start (const_rng (9 / 10)) = Inr (s', rnd') \<and>
     length (agents s') = 3 \<and>
     map pos (agents s') = [0, 1, 2] \<and>
     mset (map goalIndex (agents s')) = mset [0, 1, 2] \<and>
     mset (map ident_goal (agents s')) = mset [(0, 1), (1, 2), (2, 0)]"
proof -
  have r: "reset \<lparr>sim_count = 3, sim_stubbornness = 0, agents = [],
                  step = 0, swaps = 0, jams = 0, reroutes = 0,
                  running = False, timer = None, speed = 50\<rparr> 0 cycle_rng
             = Inr (cycle_start, 3, const_rng (9 / 10), [OnTick (snapshot cycle_start)])"
    using construct_cycle_start by (simp add: Simulation_new_def)
  have l: "[0..<3] = [0, 1, 2]" by (simp add: upt_rec)
  from permutation_invariant [OF valid_cycle_rng r, of 5]
  show ?thesis
    by (simp add: cycle_start_def l ident_goal_def new_Agent_def numeral_3_eq_3)
qed

section \<open>Stubbornness 0\<close>

subsection \<open>A run that never sorts\<close>

lemma list3:
  assumes "map f xs = [a, b, c]"
  obtains x0 x1 x2 where "xs = [x0, x1, x2]" and "f x0 = a" and "f x1 = b" and "f x2 = c"
  using assms by (auto simp: map_eq_Cons_conv)

lemma cycle_step_A:
  assumes "cycle_config [1, 2, 0] s"
  shows "\<exists>s' out. tick s (const_rng (9 / 10)) = Inr (s', const_rng (9 / 10), out) \<and>
                   cycle_config [2, 1, 0] s'"
proof -
  from assms have p: "map pos (agents s) = [0, 1, 2]" by (simp add: cycle_config_def)
  then obtain a0 a1 a2 where as: "agents s = [a0, a1, a2]"
    and p0: "pos a0 = 0" and p1: "pos a1 = 1" and p2: "pos a2 = 2"
    by (rule list3)
  from assms as have g: "goalIndex a0 = 1" "goalIndex a1 = 2" "goalIndex a2 = 0"
    by (simp_all add: cycle_config_def)
  from assms as have c:
    "stubbornness a0 = 0" "jamCount a0 = 0" "waitTicks a0 = 0" "patience a0 = 3"
    "stubbornness a1 = 0" "jamCount a1 = 0" "waitTicks a1 = 0" "patience a1 = 3"
    "stubbornness a2 = 0" "jamCount a2 = 0" "waitTicks a2 = 0" "patience a2 = 3"
    by (simp_all add: cycle_config_def calm_def)
  have ns: "\<not> isSorted s"
    by (simp add: isSorted_def as atGoal_def p0 g)
  have col: "collect [0, 1, 2] (s\<lparr>step := step s + 1\<rparr>) Map.empty
      = Inr (s\<lparr>step := step s + 1,
                agents := [a0\<lparr>state := MOVING\<rparr>, a1\<lparr>state := MOVING\<rparr>, a2\<lparr>state := MOVING\<rparr>]\<rparr>,
             [0 \<mapsto> \<lparr>action = Move, direction = 1\<rparr>,
              1 \<mapsto> \<lparr>action = Move, direction = 1\<rparr>,
              2 \<mapsto> \<lparr>action = Move, direction = - 1\<rparr>])"
    by (simp add: as decide_def atGoal_def distanceToGoal_def Let_def p0 p1 p2 g c)
  let ?s2 = "s\<lparr>step := step s + 1,
                agents := [a0\<lparr>state := MOVING\<rparr>, a1\<lparr>state := MOVING\<rparr>, a2\<lparr>state := MOVING\<rparr>]\<rparr>"
  let ?s3 = "s\<lparr>step := step s + 1, swaps := swaps s + 1,
                agents := [notifySwap (a1\<lparr>state := MOVING\<rparr>) 0,
                           notifySwap (a0\<lparr>state := MOVING\<rparr>) 1,
                           a2\<lparr>state := MOVING\<rparr>]\<rparr>"
  have res: "resolve [0, 1, 2]
               [0 \<mapsto> \<lparr>action = Move, direction = 1\<rparr>,
                1 \<mapsto> \<lparr>action = Move, direction = 1\<rparr>,
                2 \<mapsto> \<lparr>action = Move, direction = - 1\<rparr>]
               \<lparr>r_sim = ?s2, swappedThisTick = {}, r_rng = const_rng (9 / 10), r_out = []\<rparr>
      = Inr \<lparr>r_sim = ?s3, swappedThisTick = {1, 0}, r_rng = const_rng (9 / 10), r_out = []\<rparr>"
    by (simp add: resolve_one_def Let_def considerSwap_def distanceToGoal_def swap_def
          Math_random_def const_rng_def p0 p1 p2 g c)
  have t: "tick s (const_rng (9 / 10))
      = Inr (if running ?s3 then schedule ?s3 else ?s3, const_rng (9 / 10), [OnTick (snapshot ?s3)])"
  proof -
    have sh: "shuffle [0..<length (agents (s\<lparr>step := step s + 1\<rparr>))] (const_rng (9 / 10))
                = ([0, 1, 2], const_rng (9 / 10))"
      by (simp add: as upt_rec shuffle3_identity)
    show ?thesis
      unfolding tick_def Let_def
      apply (simp only: ns if_False sh prod.case col sum.case res)
      apply simp
      done
  qed
  have "cycle_config [2, 1, 0] (if running ?s3 then schedule ?s3 else ?s3)"
    by (simp add: cycle_config_def calm_def schedule_def notifySwap_def g c p2)
  with t show ?thesis by blast
qed

lemma cycle_step_B:
  assumes "cycle_config [2, 1, 0] s"
  shows "\<exists>s' out. tick s (const_rng (9 / 10)) = Inr (s', const_rng (9 / 10), out) \<and>
                   cycle_config [1, 2, 0] s'"
proof -
  from assms have p: "map pos (agents s) = [0, 1, 2]" by (simp add: cycle_config_def)
  then obtain a0 a1 a2 where as: "agents s = [a0, a1, a2]"
    and p0: "pos a0 = 0" and p1: "pos a1 = 1" and p2: "pos a2 = 2"
    by (rule list3)
  from assms as have g: "goalIndex a0 = 2" "goalIndex a1 = 1" "goalIndex a2 = 0"
    by (simp_all add: cycle_config_def)
  from assms as have c:
    "stubbornness a0 = 0" "jamCount a0 = 0" "waitTicks a0 = 0" "patience a0 = 3"
    "stubbornness a1 = 0" "jamCount a1 = 0" "waitTicks a1 = 0" "patience a1 = 3"
    "stubbornness a2 = 0" "jamCount a2 = 0" "waitTicks a2 = 0" "patience a2 = 3"
    by (simp_all add: cycle_config_def calm_def)
  have ns: "\<not> isSorted s"
    by (simp add: isSorted_def as atGoal_def p0 g)
  have col: "collect [0, 1, 2] (s\<lparr>step := step s + 1\<rparr>) Map.empty
      = Inr (s\<lparr>step := step s + 1,
                agents := [a0\<lparr>state := MOVING\<rparr>, a1\<lparr>state := SATISFIED\<rparr>, a2\<lparr>state := MOVING\<rparr>]\<rparr>,
             [0 \<mapsto> \<lparr>action = Move, direction = 1\<rparr>,
              1 \<mapsto> \<lparr>action = Stay, direction = 0\<rparr>,
              2 \<mapsto> \<lparr>action = Move, direction = - 1\<rparr>])"
    by (simp add: as decide_def atGoal_def distanceToGoal_def Let_def p0 p1 p2 g c)
  let ?s2 = "s\<lparr>step := step s + 1,
                agents := [a0\<lparr>state := MOVING\<rparr>, a1\<lparr>state := SATISFIED\<rparr>, a2\<lparr>state := MOVING\<rparr>]\<rparr>"
  let ?s3 = "s\<lparr>step := step s + 1, swaps := swaps s + 1,
                agents := [notifySwap (a1\<lparr>state := SATISFIED\<rparr>) 0,
                           notifySwap (a0\<lparr>state := MOVING\<rparr>) 1,
                           a2\<lparr>state := MOVING\<rparr>]\<rparr>"
  have res: "resolve [0, 1, 2]
               [0 \<mapsto> \<lparr>action = Move, direction = 1\<rparr>,
                1 \<mapsto> \<lparr>action = Stay, direction = 0\<rparr>,
                2 \<mapsto> \<lparr>action = Move, direction = - 1\<rparr>]
               \<lparr>r_sim = ?s2, swappedThisTick = {}, r_rng = const_rng (9 / 10), r_out = []\<rparr>
      = Inr \<lparr>r_sim = ?s3, swappedThisTick = {1, 0}, r_rng = const_rng (9 / 10), r_out = []\<rparr>"
    by (simp add: resolve_one_def Let_def considerSwap_def distanceToGoal_def swap_def
          Math_random_def const_rng_def p0 p1 p2 g c)
  have t: "tick s (const_rng (9 / 10))
      = Inr (if running ?s3 then schedule ?s3 else ?s3, const_rng (9 / 10), [OnTick (snapshot ?s3)])"
  proof -
    have sh: "shuffle [0..<length (agents (s\<lparr>step := step s + 1\<rparr>))] (const_rng (9 / 10))
                = ([0, 1, 2], const_rng (9 / 10))"
      by (simp add: as upt_rec shuffle3_identity)
    show ?thesis
      unfolding tick_def Let_def
      apply (simp only: ns if_False sh prod.case col sum.case res)
      apply simp
      done
  qed
  have "cycle_config [1, 2, 0] (if running ?s3 then schedule ?s3 else ?s3)"
    by (simp add: cycle_config_def calm_def schedule_def notifySwap_def g c p2)
  with t show ?thesis by blast
qed

lemma cycle_config_unsorted:
  assumes "cycle_config [1, 2, 0] s \<or> cycle_config [2, 1, 0] s"
  shows "\<not> isSorted s"
proof -
  from assms have p: "map pos (agents s) = [0, 1, 2]" by (auto simp: cycle_config_def)
  then obtain a0 a1 a2 where as: "agents s = [a0, a1, a2]" and p0: "pos a0 = 0"
    by (rule list3)
  from assms as have "goalIndex a0 \<noteq> 0" by (auto simp: cycle_config_def)
  with p0 show ?thesis by (simp add: isSorted_def as atGoal_def)
qed

lemma cycle_forever:
  "cycle_config [1, 2, 0] s \<or> cycle_config [2, 1, 0] s \<Longrightarrow>
   \<exists>s'. ticks k s (const_rng (9 / 10)) = Inr (s', const_rng (9 / 10)) \<and>
        (cycle_config [1, 2, 0] s' \<or> cycle_config [2, 1, 0] s')"
proof (induction k arbitrary: s)
  case 0
  then show ?case by simp
next
  case (Suc k)
  from Suc.prems cycle_step_A [of s] cycle_step_B [of s]
  obtain s1 out where t: "tick s (const_rng (9 / 10)) = Inr (s1, const_rng (9 / 10), out)"
    and c: "cycle_config [1, 2, 0] s1 \<or> cycle_config [2, 1, 0] s1"
    by blast
  from Suc.IH [OF c] t show ?case by simp
qed

lemma cycle_start_config: "cycle_config [1, 2, 0] cycle_start"
  by (simp add: cycle_config_def cycle_start_def calm_def new_Agent_def)

text \<open>
  The bound claimed for stubbornness 0 does not exist. The constructor, given three
  agents, stubbornness 0 and draws that all lie in \<open>[0, 1)\<close>, returns the arrangement
  2, 3, 1; with the draws that follow, every tick resolves index 0 first, and the
  arrangement alternates between 2, 3, 1 and 3, 2, 1. After any number of ticks the
  simulation is not sorted.
\<close>

theorem zero_stubbornness_cycles:
  "valid_rng cycle_rng \<and>
   Simulation_new (Some 3) (Some 0) 0 cycle_rng
     = Inr (cycle_start, 3, const_rng (9 / 10), [OnTick (snapshot cycle_start)]) \<and>
   (\<forall>k. \<exists>s'. ticks k cycle_start (const_rng (9 / 10)) = Inr (s', const_rng (9 / 10)) \<and>
              \<not> isSorted s')"
proof (intro conjI allI)
  show "valid_rng cycle_rng" by (rule valid_cycle_rng)
next
  show "Simulation_new (Some 3) (Some 0) 0 cycle_rng
     = Inr (cycle_start, 3, const_rng (9 / 10), [OnTick (snapshot cycle_start)])"
    by (rule construct_cycle_start)
next
  fix k
  from cycle_forever [of cycle_start k] cycle_start_config
  obtain s' where "ticks k cycle_start (const_rng (9 / 10)) = Inr (s', const_rng (9 / 10))"
    and "cycle_config [1, 2, 0] s' \<or> cycle_config [2, 1, 0] s'"
    by blast
  with cycle_config_unsorted [of s']
  show "\<exists>s'. ticks k cycle_start (const_rng (9 / 10)) = Inr (s', const_rng (9 / 10)) \<and>
             \<not> isSorted s'"
    by blast
qed

subsection \<open>No jam without stubbornness\<close>

lemma shuffle_from_rng: "snd (shuffle_from i arr rnd) = (\<lambda>k. rnd (k + i))"
proof (induction i arbitrary: arr rnd)
  case 0
  then show ?case by simp
next
  case (Suc i)
  show ?case
    by (simp add: case_prod_unfold Let_def Suc.IH Math_random_def)
qed

lemma positive_rng_shift: "positive_rng rnd \<Longrightarrow> positive_rng (\<lambda>k. rnd (k + n))"
  by (simp add: positive_rng_def)

lemma positive_rng_shuffle: "positive_rng rnd \<Longrightarrow> positive_rng (snd (shuffle arr rnd))"
  by (simp add: shuffle_def shuffle_from_rng positive_rng_shift)

lemma positive_rng_valid: "positive_rng rnd \<Longrightarrow> valid_rng rnd"
  by (simp add: positive_rng_def valid_rng_def less_imp_le)

lemma considerSwap_zero_stubbornness:
  assumes "stubbornness nb = 0" and "d = 1 \<or> d = - 1" and "positive_rng rnd"
  shows "fst (considerSwap nb (- d) rnd) \<and> positive_rng (snd (considerSwap nb (- d) rnd))"
proof -
  from assms(3) have "0 < rnd 0" and "positive_rng (\<lambda>k. rnd (Suc k))"
    by (simp_all add: positive_rng_def)
  with assms(1,2,3) show ?thesis
    by (auto simp: considerSwap_def distanceToGoal_def Math_random_def Let_def)
qed

lemma decide_calm:
  assumes "stubbornness a = 0" and "jamCount a = 0" and "waitTicks a = 0" and "patience a = 3"
  shows "stubbornness (fst (decide a l r)) = 0 \<and> jamCount (fst (decide a l r)) = 0 \<and>
         waitTicks (fst (decide a l r)) = 0 \<and> patience (fst (decide a l r)) = 3 \<and>
         action (snd (decide a l r)) \<noteq> Push"
  using assms by (simp add: decide_def Let_def)

lemma calm_update:
  assumes "calm as" and "stubbornness a = 0" and "jamCount a = 0" and "waitTicks a = 0"
    and "patience a = 3"
  shows "calm (as[i := a])"
  unfolding calm_def
proof
  fix x assume "x \<in> set (as[i := a])"
  then have "x = a \<or> x \<in> set as"
    using set_update_subset_insert [of as i a] by auto
  with assms show "stubbornness x = 0 \<and> jamCount x = 0 \<and> waitTicks x = 0 \<and> patience x = 3"
    by (auto simp: calm_def)
qed

lemma calm_nth:
  "calm as \<Longrightarrow> i < length as \<Longrightarrow>
   stubbornness (as ! i) = 0 \<and> jamCount (as ! i) = 0 \<and> waitTicks (as ! i) = 0 \<and>
   patience (as ! i) = 3"
  by (simp add: calm_def)

lemma collect_calm:
  "collect order s m = Inr (s', m') \<Longrightarrow> calm (agents s) \<Longrightarrow>
   \<forall>i it. m i = Some it \<longrightarrow> action it \<noteq> Push \<Longrightarrow>
   calm (agents s') \<and> (\<forall>i it. m' i = Some it \<longrightarrow> action it \<noteq> Push)"
proof (induction order arbitrary: s m)
  case Nil
  then show ?case by simp
next
  case (Cons k rest)
  from Cons.prems(1) have k: "k < length (agents s)"
    by (simp split: if_splits)
  let ?l = "if k > 0 then Some (agents s ! (k - 1)) else None"
  let ?r = "if k < length (agents s) - 1 then Some (agents s ! (k + 1)) else None"
  let ?a' = "fst (decide (agents s ! k) ?l ?r)"
  let ?it = "snd (decide (agents s ! k) ?l ?r)"
  let ?s1 = "s\<lparr>agents := (agents s)[k := ?a']\<rparr>"
  from Cons.prems(1) k
  have c: "collect rest ?s1 (m(k \<mapsto> ?it)) = Inr (s', m')"
    by (simp add: Let_def case_prod_unfold)
  from calm_nth [OF Cons.prems(2) k]
  have d: "stubbornness ?a' = 0 \<and> jamCount ?a' = 0 \<and> waitTicks ?a' = 0 \<and> patience ?a' = 3 \<and>
           action ?it \<noteq> Push"
    by (intro decide_calm) simp_all
  with Cons.prems(2) have c1: "calm (agents ?s1)"
    by (simp add: calm_update)
  from d Cons.prems(3) have c2: "\<forall>i it. (m(k \<mapsto> ?it)) i = Some it \<longrightarrow> action it \<noteq> Push"
    by auto
  from Cons.IH [OF c c1 c2] show ?case .
qed

lemma swap_calm:
  assumes "calm (agents s)" and "i < length (agents s)" and "j < length (agents s)"
  shows "calm (agents (swap s i j))"
proof -
  from calm_nth [OF assms(1) assms(2)] calm_nth [OF assms(1) assms(3)]
  have "calm ((agents s)[i := notifySwap (agents s ! j) (int i)])"
    by (intro calm_update assms(1)) (simp_all add: notifySwap_def)
  moreover from calm_nth [OF assms(1) assms(2)]
  have "stubbornness (notifySwap (agents s ! i) (int j)) = 0"
       "jamCount (notifySwap (agents s ! i) (int j)) = 0"
       "waitTicks (notifySwap (agents s ! i) (int j)) = 0"
       "patience (notifySwap (agents s ! i) (int j)) = 3"
    by (simp_all add: notifySwap_def)
  ultimately show ?thesis
    by (simp add: swap_def Let_def calm_update)
qed

lemma swap_counters:
  "jams (swap s i j) = jams s \<and> reroutes (swap s i j) = reroutes s \<and> step (swap s i j) = step s"
  by (simp add: swap_def Let_def)

lemma resolve_one_calm:
  assumes "resolve_one i m st = Inr st'" and "calm (agents (r_sim st))"
    and "\<forall>i it. m i = Some it \<longrightarrow> action it \<noteq> Push"
    and "\<forall>i it. m i = Some it \<longrightarrow> direction it \<in> {- 1, 0, 1}"
    and "positive_rng (r_rng st)"
  shows "calm (agents (r_sim st')) \<and> jams (r_sim st') = jams (r_sim st) \<and>
         reroutes (r_sim st') = reroutes (r_sim st) \<and> positive_rng (r_rng st')"
  using assms(1)
proof (cases rule: resolve_one_cases)
  case skip
  with assms show ?thesis by simp
next
  case (push it j)
  with assms(3) show ?thesis by blast
next
  case (accept it j)
  from accept(1,3) assms(4) have d: "direction it = 1 \<or> direction it = - 1" by auto
  from calm_nth [OF assms(2) accept(6)] have "stubbornness (agents (r_sim st) ! j) = 0" by simp
  from considerSwap_zero_stubbornness [OF this d assms(5)] accept assms(2)
  show ?thesis by (simp add: swap_calm swap_counters)
next
  case (jam it j)
  from jam(1,3) assms(4) have d: "direction it = 1 \<or> direction it = - 1" by auto
  from calm_nth [OF assms(2) jam(6)] have "stubbornness (agents (r_sim st) ! j) = 0" by simp
  from considerSwap_zero_stubbornness [OF this d assms(5)] jam(9)
  show ?thesis by simp
qed

lemma resolve_calm:
  "resolve order m st = Inr st' \<Longrightarrow> calm (agents (r_sim st)) \<Longrightarrow>
   \<forall>i it. m i = Some it \<longrightarrow> action it \<noteq> Push \<Longrightarrow>
   \<forall>i it. m i = Some it \<longrightarrow> direction it \<in> {- 1, 0, 1} \<Longrightarrow>
   positive_rng (r_rng st) \<Longrightarrow>
   calm (agents (r_sim st')) \<and> jams (r_sim st') = jams (r_sim st) \<and>
   reroutes (r_sim st') = reroutes (r_sim st) \<and> positive_rng (r_rng st')"
proof (induction order arbitrary: st)
  case Nil
  then show ?case by simp
next
  case (Cons i rest)
  from Cons.prems(1) obtain st1 where one: "resolve_one i m st = Inr st1"
    and more: "resolve rest m st1 = Inr st'"
    by (cases "resolve_one i m st") auto
  from resolve_one_calm [OF one Cons.prems(2-5)]
  have s1: "calm (agents (r_sim st1))" "jams (r_sim st1) = jams (r_sim st)"
    "reroutes (r_sim st1) = reroutes (r_sim st)" "positive_rng (r_rng st1)"
    by simp_all
  from Cons.IH [OF more s1(1) Cons.prems(3) Cons.prems(4) s1(4)] s1 show ?case by simp
qed

lemma collect_directions:
  assumes "collect order s Map.empty = Inr (s', m)"
  shows "\<forall>i it. m i = Some it \<longrightarrow> direction it \<in> {- 1, 0, 1}"
proof (intro allI impI)
  fix i it assume "m i = Some it"
  from collect_intents_decided [OF assms this]
  obtain a l r where "it = snd (decide a l r)" by auto
  with decide_direction [of a l r] show "direction it \<in> {- 1, 0, 1}" by simp
qed

lemma tick_calm:
  assumes "tick s rnd = Inr (s', rnd', out)" and "calm (agents s)" and "positive_rng rnd"
  shows "calm (agents s') \<and> jams s' = jams s \<and> reroutes s' = reroutes s \<and> positive_rng rnd'"
proof (cases "isSorted s")
  case True
  with assms(1) have s': "s' = (stop s)\<lparr>agents := map (\<lambda>a. a\<lparr>state := SATISFIED\<rparr>) (agents (stop s))\<rparr>"
    and r: "rnd' = rnd"
    by (simp_all add: tick_def Let_def)
  from assms(2) have "calm (agents s')"
    by (auto simp: s' stop_def calm_def)
  with assms(3) r show ?thesis by (simp add: s' stop_def)
next
  case False
  from tick_unsorted [OF False positive_rng_valid [OF assms(3)]]
  obtain s2 m st where
    c: "collect (fst (shuffle [0..<length (agents s)] rnd)) (s\<lparr>step := step s + 1\<rparr>) Map.empty
             = Inr (s2, m)"
    and r: "resolve (fst (shuffle [0..<length (agents s)] rnd)) m
               \<lparr>r_sim = s2, swappedThisTick = {}, r_rng = snd (shuffle [0..<length (agents s)] rnd),
                r_out = []\<rparr> = Inr st"
    and t: "tick s rnd = Inr (if running (r_sim st) then schedule (r_sim st) else r_sim st,
                             r_rng st, r_out st @ [OnTick (snapshot (r_sim st))])"
    by blast
  from t assms(1) have s': "agents s' = agents (r_sim st)" "jams s' = jams (r_sim st)"
    "reroutes s' = reroutes (r_sim st)" and r': "rnd' = r_rng st"
    by (auto simp: schedule_def)
  from collect_calm [OF c] assms(2)
  have c1: "calm (agents s2)" and c2: "\<forall>i it. m i = Some it \<longrightarrow> action it \<noteq> Push"
    by simp_all
  from collect_frame [OF c] have c3: "jams s2 = jams s" "reroutes s2 = reroutes s" by simp_all
  let ?st0 = "\<lparr>r_sim = s2, swappedThisTick = {},
               r_rng = snd (shuffle [0..<length (agents s)] rnd), r_out = []\<rparr>"
  have cr: "calm (agents (r_sim ?st0))" using c1 by simp
  have pr: "positive_rng (r_rng ?st0)" using positive_rng_shuffle [OF assms(3)] by simp
  from resolve_calm [OF r cr c2 collect_directions [OF c] pr]
  have "calm (agents (r_sim st)) \<and> jams (r_sim st) = jams s2 \<and>
        reroutes (r_sim st) = reroutes s2 \<and> positive_rng (r_rng st)"
    by simp
  with s' r' c3 show ?thesis by simp
qed

lemma ticks_calm:
  "positive_rng rnd \<Longrightarrow> calm (agents s) \<Longrightarrow>
   \<exists>s' rnd'. ticks k s rnd = Inr (s', rnd') \<and> calm (agents s') \<and> jams s' = jams s \<and>
     reroutes s' = reroutes s"
proof (induction k arbitrary: s rnd)
  case 0
  then show ?case by simp
next
  case (Suc k)
  from tick_total [OF positive_rng_valid [OF Suc.prems(1)], of s]
  obtain s1 rnd1 out where t: "tick s rnd = Inr (s1, rnd1, out)" by blast
  from tick_calm [OF t Suc.prems(2) Suc.prems(1)]
  have s1: "calm (agents s1)" "jams s1 = jams s" "reroutes s1 = reroutes s" "positive_rng rnd1"
    by simp_all
  from Suc.IH [OF s1(4) s1(1)]
  obtain s' rnd' where "ticks k s1 rnd1 = Inr (s', rnd')" and "calm (agents s')"
    and "jams s' = jams s1" and "reroutes s' = reroutes s1"
    by blast
  with t s1 have "ticks (Suc k) s rnd = Inr (s', rnd') \<and> calm (agents s') \<and>
     jams s' = jams s \<and> reroutes s' = reroutes s"
    by simp
  then show ?case by blast
qed

lemma build_agents_calm: "calm (build_agents vs 0 nid)"
  by (auto simp: calm_def build_agents_def new_Agent_def)

text \<open>
  C4, as the code has it. With stubbornness 0 an agent accepts a swap that worsens
  its distance for every draw except 0, so when no draw is 0 no request is ever
  refused: let the constructor build a simulation with stubbornness 0; after any
  number of ticks, all of which return, \<open>jams\<close> and \<open>reroutes\<close> are still 0 and no
  agent has a jam on record or a cooldown running. Nothing is said of the number of
  ticks needed to sort.
\<close>

theorem zero_stubbornness_no_jam:
  assumes "positive_rng rnd"
    and "Simulation_new cnt (Some 0) nid rnd = Inr (s0, nid', rnd0, out0)"
  shows "(\<forall>a d. stubbornness a = 0 \<and> \<bar>goalIndex a - (pos a + d)\<bar> > \<bar>goalIndex a - pos a\<bar>
            \<longrightarrow> fst (considerSwap a d rnd)) \<and>
         (\<exists>s' rnd'. ticks k s0 rnd0 = Inr (s', rnd') \<and> jams s' = 0 \<and> reroutes s' = 0 \<and>
            (\<forall>a \<in> set (agents s'). stubbornness a = 0 \<and> jamCount a = 0 \<and> waitTicks a = 0))"
proof
  from assms(1) have "0 < rnd 0" by (simp add: positive_rng_def)
  then show "\<forall>a d. stubbornness a = 0 \<and> \<bar>goalIndex a - (pos a + d)\<bar> > \<bar>goalIndex a - pos a\<bar>
            \<longrightarrow> fst (considerSwap a d rnd)"
    by (auto simp: considerSwap_def distanceToGoal_def Math_random_def Let_def)
next
  let ?s = "\<lparr>sim_count = (case cnt of None \<Rightarrow> 20 | Some c \<Rightarrow> c), sim_stubbornness = 0,
             agents = [], step = 0, swaps = 0, jams = 0, reroutes = 0,
             running = False, timer = None, speed = 50\<rparr>"
  from assms(2) have r: "reset ?s nid rnd = Inr (s0, nid', rnd0, out0)"
    by (simp add: Simulation_new_def)
  from reset_result [OF r] have c0: "calm (agents s0)"
    and r0: "rnd0 = snd (shuffle (map (\<lambda>i. int i + 1) [0..<nat (sim_count ?s)]) rnd)"
    by (simp_all add: build_agents_calm)
  from r have z: "jams s0 = 0" "reroutes s0 = 0"
    by (auto simp: reset_def stop_def Let_def case_prod_unfold split: if_splits)
  from assms(1) have p0: "positive_rng rnd0"
    unfolding r0 by (rule positive_rng_shuffle)
  from ticks_calm [OF p0 c0, of k] z
  show "\<exists>s' rnd'. ticks k s0 rnd0 = Inr (s', rnd') \<and> jams s' = 0 \<and> reroutes s' = 0 \<and>
            (\<forall>a \<in> set (agents s'). stubbornness a = 0 \<and> jamCount a = 0 \<and> waitTicks a = 0)"
    by (auto simp: calm_def)
qed

theorem zero_stubbornness_no_jam_witness:
  "\<exists>s' rnd'. ticks 6 cycle_start (const_rng (9 / 10)) = Inr (s', rnd') \<and>
      jams s' = 0 \<and> reroutes s' = 0 \<and>
      list_all (\<lambda>a. stubbornness a = 0 \<and> jamCount a = 0 \<and> waitTicks a = 0) (agents s')"
proof -
  have p: "positive_rng cycle_rng"
    by (simp add: positive_rng_def cycle_rng_def)
  from zero_stubbornness_no_jam [OF p construct_cycle_start, of 6]
  show ?thesis by (simp add: list_all_iff)
qed

section \<open>The tick that completes the sort\<close>

subsection \<open>What the collection pass leaves\<close>

lemma decide_presence:
  "(l = None \<longleftrightarrow> l' = None) \<Longrightarrow> (r = None \<longleftrightarrow> r' = None) \<Longrightarrow> decide a l r = decide a l' r'"
  by (auto simp: decide_def Let_def)

lemma decide_move_direction:
  assumes "direction (snd (decide a l r)) \<noteq> 0" and "action (snd (decide a l r)) \<noteq> Push"
  shows "direction (snd (decide a l r)) = (if goalIndex a - pos a > 0 then 1 else - 1)"
  using assms by (auto simp: decide_def Let_def distanceToGoal_def split: if_splits)

lemma decide_unsatisfied:
  "\<not> atGoal a \<Longrightarrow> state (fst (decide a l r)) \<noteq> SATISFIED"
  by (auto simp: decide_def Let_def)

lemma decide_goal: "goalIndex (fst (decide a l r)) = goalIndex a"
  by (simp add: decide_def Let_def)

lemma collect_result:
  "collect order s m0 = Inr (s2, m) \<Longrightarrow> distinct order \<Longrightarrow>
   length (agents s2) = length (agents s) \<and>
   (\<forall>k. k \<in> set order \<longrightarrow>
      agents s2 ! k = fst (decide (agents s ! k) (left_of (agents s) k) (right_of (agents s) k)) \<and>
      m k = Some (snd (decide (agents s ! k) (left_of (agents s) k) (right_of (agents s) k)))) \<and>
   (\<forall>k. k \<notin> set order \<longrightarrow> agents s2 ! k = agents s ! k \<and> m k = m0 k)"
proof (induction order arbitrary: s m0)
  case Nil
  then show ?case by simp
next
  case (Cons k0 rest)
  from Cons.prems(1) have k0: "k0 < length (agents s)"
    by (simp split: if_splits)
  let ?l = "if k0 > 0 then Some (agents s ! (k0 - 1)) else None"
  let ?r = "if k0 < length (agents s) - 1 then Some (agents s ! (k0 + 1)) else None"
  let ?a' = "fst (decide (agents s ! k0) ?l ?r)"
  let ?it = "snd (decide (agents s ! k0) ?l ?r)"
  let ?s1 = "s\<lparr>agents := (agents s)[k0 := ?a']\<rparr>"
  from Cons.prems(1) k0
  have c: "collect rest ?s1 (m0(k0 \<mapsto> ?it)) = Inr (s2, m)"
    by (simp add: Let_def case_prod_unfold)
  from Cons.prems(2) have d: "distinct rest" and nk: "k0 \<notin> set rest" by simp_all
  from Cons.IH [OF c d]
  have len: "length (agents s2) = length (agents ?s1)"
    and inn: "\<And>k. k \<in> set rest \<Longrightarrow>
      agents s2 ! k = fst (decide (agents ?s1 ! k) (left_of (agents ?s1) k) (right_of (agents ?s1) k)) \<and>
      m k = Some (snd (decide (agents ?s1 ! k) (left_of (agents ?s1) k) (right_of (agents ?s1) k)))"
    and out: "\<And>k. k \<notin> set rest \<Longrightarrow> agents s2 ! k = agents ?s1 ! k \<and> m k = (m0(k0 \<mapsto> ?it)) k"
    by blast+
  have lr: "?l = left_of (agents s) k0" "?r = right_of (agents s) k0"
    by (simp_all add: left_of_def right_of_def)
  show ?case
  proof (intro conjI allI impI)
    show "length (agents s2) = length (agents s)" using len by simp
  next
    fix k assume k: "k \<in> set (k0 # rest)"
    show "agents s2 ! k
            = fst (decide (agents s ! k) (left_of (agents s) k) (right_of (agents s) k))"
    proof (cases "k = k0")
      case True
      with out [OF nk] k0 lr show ?thesis by simp
    next
      case False
      with k have kr: "k \<in> set rest" by simp
      from False have same: "agents ?s1 ! k = agents s ! k" by simp
      have "decide (agents s ! k) (left_of (agents ?s1) k) (right_of (agents ?s1) k)
              = decide (agents s ! k) (left_of (agents s) k) (right_of (agents s) k)"
        by (rule decide_presence) (simp_all add: left_of_def right_of_def)
      with inn [OF kr] same show ?thesis by simp
    qed
  next
    fix k assume k: "k \<in> set (k0 # rest)"
    show "m k = Some (snd (decide (agents s ! k) (left_of (agents s) k) (right_of (agents s) k)))"
    proof (cases "k = k0")
      case True
      with out [OF nk] lr show ?thesis by simp
    next
      case False
      with k have kr: "k \<in> set rest" by simp
      from False have same: "agents ?s1 ! k = agents s ! k" by simp
      have "decide (agents s ! k) (left_of (agents ?s1) k) (right_of (agents ?s1) k)
              = decide (agents s ! k) (left_of (agents s) k) (right_of (agents s) k)"
        by (rule decide_presence) (simp_all add: left_of_def right_of_def)
      with inn [OF kr] same show ?thesis by simp
    qed
  next
    fix k assume "k \<notin> set (k0 # rest)"
    then have "k \<notin> set rest" and "k \<noteq> k0" by simp_all
    with out [of k] show "agents s2 ! k = agents s ! k" by simp
  next
    fix k assume "k \<notin> set (k0 # rest)"
    then have "k \<notin> set rest" and "k \<noteq> k0" by simp_all
    with out [of k] show "m k = m0 k" by simp
  qed
qed

subsection \<open>Where the goals go in one iteration\<close>

lemma swap_goals:
  assumes "i < length (agents s)" and "j < length (agents s)" and "i \<noteq> j"
  shows "goalIndex (agents (swap s i j) ! i) = goalIndex (agents s ! j) \<and>
         goalIndex (agents (swap s i j) ! j) = goalIndex (agents s ! i) \<and>
         (\<forall>k. k \<noteq> i \<and> k \<noteq> j \<longrightarrow> agents (swap s i j) ! k = agents s ! k)"
  using assms by (simp add: swap_def Let_def notifySwap_def nth_list_update)

lemma resolve_one_goals:
  assumes "resolve_one i m st = Inr st1" and "unit_directions m"
  shows "(swappedThisTick st1 = swappedThisTick st \<and>
          (\<forall>k. goalIndex (agents (r_sim st1) ! k) = goalIndex (agents (r_sim st) ! k))) \<or>
         (\<exists>j. i < length (agents (r_sim st)) \<and> j < length (agents (r_sim st)) \<and>
              i \<notin> swappedThisTick st \<and> j \<notin> swappedThisTick st \<and>
              (int j = int i + 1 \<or> int j = int i - 1) \<and>
              swappedThisTick st1 = insert j (insert i (swappedThisTick st)) \<and>
              goalIndex (agents (r_sim st1) ! i) = goalIndex (agents (r_sim st) ! j) \<and>
              goalIndex (agents (r_sim st1) ! j) = goalIndex (agents (r_sim st) ! i) \<and>
              (\<forall>k. k \<noteq> i \<and> k \<noteq> j \<longrightarrow>
                 goalIndex (agents (r_sim st1) ! k) = goalIndex (agents (r_sim st) ! k)))"
  using assms(1)
proof (cases rule: resolve_one_cases)
  case skip
  then show ?thesis by simp
next
  case (push it j)
  from push(1,3) assms(2) have adj: "int j = int i + 1 \<or> int j = int i - 1"
    using push(7) by (auto simp: unit_directions_def)
  then have ne: "i \<noteq> j" by auto
  from swap_goals [OF push(5) push(6) ne] push adj
  have "i < length (agents (r_sim st)) \<and> j < length (agents (r_sim st)) \<and>
              i \<notin> swappedThisTick st \<and> j \<notin> swappedThisTick st \<and>
              (int j = int i + 1 \<or> int j = int i - 1) \<and>
              swappedThisTick st1 = insert j (insert i (swappedThisTick st)) \<and>
              goalIndex (agents (r_sim st1) ! i) = goalIndex (agents (r_sim st) ! j) \<and>
              goalIndex (agents (r_sim st1) ! j) = goalIndex (agents (r_sim st) ! i) \<and>
              (\<forall>k. k \<noteq> i \<and> k \<noteq> j \<longrightarrow>
                 goalIndex (agents (r_sim st1) ! k) = goalIndex (agents (r_sim st) ! k))"
    by simp
  then show ?thesis by blast
next
  case (accept it j)
  from accept(1,3) assms(2) have adj: "int j = int i + 1 \<or> int j = int i - 1"
    using accept(7) by (auto simp: unit_directions_def)
  then have ne: "i \<noteq> j" by auto
  from swap_goals [OF accept(5) accept(6) ne] accept adj
  have "i < length (agents (r_sim st)) \<and> j < length (agents (r_sim st)) \<and>
              i \<notin> swappedThisTick st \<and> j \<notin> swappedThisTick st \<and>
              (int j = int i + 1 \<or> int j = int i - 1) \<and>
              swappedThisTick st1 = insert j (insert i (swappedThisTick st)) \<and>
              goalIndex (agents (r_sim st1) ! i) = goalIndex (agents (r_sim st) ! j) \<and>
              goalIndex (agents (r_sim st1) ! j) = goalIndex (agents (r_sim st) ! i) \<and>
              (\<forall>k. k \<noteq> i \<and> k \<noteq> j \<longrightarrow>
                 goalIndex (agents (r_sim st1) ! k) = goalIndex (agents (r_sim st) ! k))"
    by simp
  then show ?thesis by blast
next
  case (jam it j)
  have "\<forall>k. goalIndex ((agents (r_sim st))[i := notifyJam (agents (r_sim st) ! i)] ! k)
             = goalIndex (agents (r_sim st) ! k)"
  proof
    fix k
    show "goalIndex ((agents (r_sim st))[i := notifyJam (agents (r_sim st) ! i)] ! k)
             = goalIndex (agents (r_sim st) ! k)"
      using jam(5) by (cases "k = i") (simp_all add: notifyJam_def)
  qed
  with jam show ?thesis by simp
qed

lemma resolve_one_follow:
  assumes "resolve_one i m st = Inr st1" and "unit_directions m" and "intents_follow_goals m st"
  shows "intents_follow_goals m st1"
  using resolve_one_goals [OF assms(1,2)] assms(3)
  unfolding intents_follow_goals_def by (elim disjE exE conjE) auto

subsection \<open>Where the goals go in the resolution pass\<close>

lemma resolve_trajectory:
  "resolve order m st = Inr st' \<Longrightarrow> unit_directions m \<Longrightarrow>
   (k \<in> swappedThisTick st \<longrightarrow>
      goalIndex (agents (r_sim st') ! k) = goalIndex (agents (r_sim st) ! k)) \<and>
   (k \<notin> swappedThisTick st \<longrightarrow>
      goalIndex (agents (r_sim st') ! k) = goalIndex (agents (r_sim st) ! k) \<or>
      (\<exists>j. j < length (agents (r_sim st)) \<and> j \<notin> swappedThisTick st \<and>
           (int j = int k + 1 \<or> int j = int k - 1) \<and>
           goalIndex (agents (r_sim st') ! k) = goalIndex (agents (r_sim st) ! j) \<and>
           goalIndex (agents (r_sim st') ! j) = goalIndex (agents (r_sim st) ! k)))"
proof (induction order arbitrary: st k)
  case Nil
  then show ?case by simp
next
  case (Cons i rest)
  from Cons.prems(1) obtain st1 where one: "resolve_one i m st = Inr st1"
    and more: "resolve rest m st1 = Inr st'"
    by (cases "resolve_one i m st") auto
  note ih = Cons.IH [OF more Cons.prems(2)]
  from resolve_one_inv [OF one]
  have len1: "length (agents (r_sim st1)) = length (agents (r_sim st))" by simp
  from resolve_one_goals [OF one Cons.prems(2)]
  consider (same) "swappedThisTick st1 = swappedThisTick st"
      "\<forall>k. goalIndex (agents (r_sim st1) ! k) = goalIndex (agents (r_sim st) ! k)"
    | (swapped) j where "i \<notin> swappedThisTick st" "j \<notin> swappedThisTick st"
      "int j = int i + 1 \<or> int j = int i - 1"
      "swappedThisTick st1 = insert j (insert i (swappedThisTick st))"
      "goalIndex (agents (r_sim st1) ! i) = goalIndex (agents (r_sim st) ! j)"
      "goalIndex (agents (r_sim st1) ! j) = goalIndex (agents (r_sim st) ! i)"
      "\<forall>k. k \<noteq> i \<and> k \<noteq> j \<longrightarrow>
                 goalIndex (agents (r_sim st1) ! k) = goalIndex (agents (r_sim st) ! k)"
      "i < length (agents (r_sim st))" "j < length (agents (r_sim st))"
    by blast
  then show ?case
  proof cases
    case same
    with ih [of k] len1 show ?thesis by simp
  next
    case (swapped j)
    note ni = swapped(1) and nj = swapped(2) and adj = swapped(3) and sw = swapped(4)
      and gi = swapped(5) and gj = swapped(6) and gk = swapped(7)
      and il = swapped(8) and jl = swapped(9)
    from ih [of i] sw gi
    have fi: "goalIndex (agents (r_sim st') ! i) = goalIndex (agents (r_sim st) ! j)" by simp
    from ih [of j] sw gj
    have fj: "goalIndex (agents (r_sim st') ! j) = goalIndex (agents (r_sim st) ! i)" by simp
    show ?thesis
    proof (cases "k = i \<or> k = j")
      case True
      then show ?thesis
      proof
        assume "k = i"
        with ni nj adj fi fj jl show ?thesis by blast
      next
        assume kj: "k = j"
        from adj have "int i = int j + 1 \<or> int i = int j - 1" by auto
        with kj ni nj fi fj il show ?thesis by blast
      qed
    next
      case False
      then have ki: "k \<noteq> i" and kj: "k \<noteq> j" by simp_all
      show ?thesis
      proof (cases "k \<in> swappedThisTick st")
        case True
        with ih [of k] sw gk ki kj show ?thesis by simp
      next
        case nk: False
        with sw ki kj have nk1: "k \<notin> swappedThisTick st1" by simp
        from ih [of k] nk1
        have "goalIndex (agents (r_sim st') ! k) = goalIndex (agents (r_sim st1) ! k) \<or>
          (\<exists>j'. j' < length (agents (r_sim st1)) \<and> j' \<notin> swappedThisTick st1 \<and>
           (int j' = int k + 1 \<or> int j' = int k - 1) \<and>
           goalIndex (agents (r_sim st') ! k) = goalIndex (agents (r_sim st1) ! j') \<and>
           goalIndex (agents (r_sim st') ! j') = goalIndex (agents (r_sim st1) ! k))"
          by simp
        then show ?thesis
        proof
          assume "goalIndex (agents (r_sim st') ! k) = goalIndex (agents (r_sim st1) ! k)"
          with gk ki kj nk show ?thesis by simp
        next
          assume "\<exists>j'. j' < length (agents (r_sim st1)) \<and> j' \<notin> swappedThisTick st1 \<and>
           (int j' = int k + 1 \<or> int j' = int k - 1) \<and>
           goalIndex (agents (r_sim st') ! k) = goalIndex (agents (r_sim st1) ! j') \<and>
           goalIndex (agents (r_sim st') ! j') = goalIndex (agents (r_sim st1) ! k)"
          then obtain j' where j': "j' \<notin> swappedThisTick st1"
            and l': "j' < length (agents (r_sim st1))"
            and a': "int j' = int k + 1 \<or> int j' = int k - 1"
            and e1: "goalIndex (agents (r_sim st') ! k) = goalIndex (agents (r_sim st1) ! j')"
            and e2: "goalIndex (agents (r_sim st') ! j') = goalIndex (agents (r_sim st1) ! k)"
            by blast
          from j' sw have "j' \<noteq> i" "j' \<noteq> j" "j' \<notin> swappedThisTick st" by auto
          with gk ki kj e1 e2 a' nk l' len1 show ?thesis by auto
        qed
      qed
    qed
  qed
qed

subsection \<open>No jam in a tick that ends sorted\<close>

lemma considerSwap_onto_goal:
  assumes "goalIndex y = pos y + d" and "d \<noteq> 0"
  shows "fst (considerSwap y d rnd)"
  using assms by (simp add: considerSwap_def distanceToGoal_def Let_def)

lemma sorted_goal_is_index:
  assumes "isSorted s" and "positions_ok (agents s)" and "k < length (agents s)"
  shows "goalIndex (agents s ! k) = int k"
proof -
  from assms(1,3) have "atGoal (agents s ! k)"
    by (simp add: isSorted_def list_all_length)
  with assms(2,3) show ?thesis by (simp add: atGoal_def positions_ok_def)
qed

lemma notifySwap_goal_state: "goal_state (notifySwap a p) = goal_state a"
  by (simp add: notifySwap_def goal_state_def)

lemma swap_goal_state:
  assumes "i < length (agents s)" and "j < length (agents s)"
  shows "image_mset goal_state (mset (agents (swap s i j))) = image_mset goal_state (mset (agents s))"
proof -
  let ?ks = "map goal_state (agents s)"
  have e: "map goal_state (agents (swap s i j)) = ?ks[i := ?ks ! j, j := ?ks ! i]"
    using assms by (simp add: swap_def Let_def map_update notifySwap_goal_state)
  have "mset (?ks[i := ?ks ! j, j := ?ks ! i]) = mset ?ks"
    by (rule mset_swap) (use assms in simp_all)
  then have "mset (map goal_state (agents (swap s i j))) = mset ?ks"
    by (simp only: e)
  then show ?thesis by simp
qed

lemma resolve_length:
  "resolve order m st = Inr st' \<Longrightarrow> length (agents (r_sim st')) = length (agents (r_sim st))"
  using resolve_inv by blast

lemma resolve_no_jam:
  "resolve order m st = Inr st' \<Longrightarrow> unit_directions m \<Longrightarrow>
   positions_ok (agents (r_sim st)) \<Longrightarrow> intents_follow_goals m st \<Longrightarrow>
   isSorted (r_sim st') \<Longrightarrow>
   image_mset goal_state (mset (agents (r_sim st')))
     = image_mset goal_state (mset (agents (r_sim st))) \<and>
   jams (r_sim st') = jams (r_sim st)"
proof (induction order arbitrary: st)
  case Nil
  then show ?case by simp
next
  case (Cons i rest)
  from Cons.prems(1) obtain st1 where one: "resolve_one i m st = Inr st1"
    and more: "resolve rest m st1 = Inr st'"
    by (cases "resolve_one i m st") auto
  from resolve_one_inv [OF one] Cons.prems(3)
  have len1: "length (agents (r_sim st1)) = length (agents (r_sim st))"
    and pos1: "positions_ok (agents (r_sim st1))"
    by simp_all
  have fol1: "intents_follow_goals m st1"
    using one Cons.prems(2) Cons.prems(4) by (rule resolve_one_follow)
  from Cons.IH [OF more Cons.prems(2) pos1 fol1 Cons.prems(5)]
  have ih: "image_mset goal_state (mset (agents (r_sim st')))
              = image_mset goal_state (mset (agents (r_sim st1)))"
    "jams (r_sim st') = jams (r_sim st1)"
    by simp_all
  from resolve_inv [OF more] pos1 len1
  have len': "length (agents (r_sim st')) = length (agents (r_sim st))"
    and pos': "positions_ok (agents (r_sim st'))"
    by simp_all
  from one show ?case
  proof (cases rule: resolve_one_cases)
    case skip
    with ih show ?thesis by simp
  next
    case (push it j)
    with ih show ?thesis by (simp add: swap_goal_state swap_counters)
  next
    case (accept it j)
    with ih show ?thesis by (simp add: swap_goal_state swap_counters)
  next
    case (jam it j)
    let ?G = "\<lambda>k. goalIndex (agents (r_sim st) ! k)"
    from Cons.prems(4) jam(1-4)
    have gi: "?G i \<noteq> int i"
      and dir: "direction it = (if ?G i - int i > 0 then 1 else - 1)"
      by (auto simp: intents_follow_goals_def)
    have g1: "\<And>k. goalIndex (agents (r_sim st1) ! k) = ?G k"
    proof -
      fix k
      show "goalIndex (agents (r_sim st1) ! k) = ?G k"
        using jam(5,10) by (cases "k = i") (simp_all add: notifyJam_def)
    qed
    from jam(10) have sw1: "swappedThisTick st1 = swappedThisTick st" by simp
    from jam(5) len' have il: "i < length (agents (r_sim st'))" by simp
    from sorted_goal_is_index [OF Cons.prems(5) pos' il]
    have fin_i: "goalIndex (agents (r_sim st') ! i) = int i" .
    from resolve_trajectory [OF more Cons.prems(2), of i] jam(4) sw1
    have "goalIndex (agents (r_sim st') ! i) = goalIndex (agents (r_sim st1) ! i) \<or>
      (\<exists>j'. j' < length (agents (r_sim st1)) \<and> j' \<notin> swappedThisTick st1 \<and>
           (int j' = int i + 1 \<or> int j' = int i - 1) \<and>
           goalIndex (agents (r_sim st') ! i) = goalIndex (agents (r_sim st1) ! j') \<and>
           goalIndex (agents (r_sim st') ! j') = goalIndex (agents (r_sim st1) ! i))"
      by simp
    then have False
    proof
      assume "goalIndex (agents (r_sim st') ! i) = goalIndex (agents (r_sim st1) ! i)"
      with fin_i g1 [of i] gi show False by simp
    next
      assume "\<exists>j'. j' < length (agents (r_sim st1)) \<and> j' \<notin> swappedThisTick st1 \<and>
           (int j' = int i + 1 \<or> int j' = int i - 1) \<and>
           goalIndex (agents (r_sim st') ! i) = goalIndex (agents (r_sim st1) ! j') \<and>
           goalIndex (agents (r_sim st') ! j') = goalIndex (agents (r_sim st1) ! i)"
      then obtain j' where adj: "int j' = int i + 1 \<or> int j' = int i - 1"
        and l1: "j' < length (agents (r_sim st1))"
        and e1: "goalIndex (agents (r_sim st') ! i) = goalIndex (agents (r_sim st1) ! j')"
        and e2: "goalIndex (agents (r_sim st') ! j') = goalIndex (agents (r_sim st1) ! i)"
        by blast
      from e1 fin_i g1 [of j'] have gj': "?G j' = int i" by simp
      from l1 len1 len' have j'l: "j' < length (agents (r_sim st'))" by simp
      from sorted_goal_is_index [OF Cons.prems(5) pos' j'l] e2 g1 [of i]
      have gi': "?G i = int j'" by simp
      with adj dir have "int j' = int i + direction it" by auto
      with jam(7) have jj: "j' = j" by simp
      from Cons.prems(3) jam(6) have "pos (agents (r_sim st) ! j) = int j"
        by (simp add: positions_ok_def)
      with gj' jj jam(7) have "goalIndex (agents (r_sim st) ! j)
          = pos (agents (r_sim st) ! j) + (- direction it)"
        by simp
      from considerSwap_onto_goal [OF this] jam(3,9) show False by simp
    qed
    then show ?thesis ..
  qed
qed

subsection \<open>The states after the last swap\<close>

lemma decide_nonzero_not_at_goal:
  "direction (snd (decide a l r)) \<noteq> 0 \<Longrightarrow> \<not> atGoal a"
  by (auto simp: decide_def Let_def)

lemma shuffle_order_distinct:
  assumes "valid_rng rnd"
  shows "distinct (fst (shuffle [0..<n] rnd))"
proof -
  from shuffle_perm [OF assms, of "[0..<n]"]
  have "mset (fst (shuffle [0..<n] rnd)) = mset [0..<n]" by simp
  then show ?thesis by (metis distinct_upt mset_eq_imp_distinct_iff)
qed

lemma snapshot_schedule: "snapshot (schedule s) = snapshot s"
  by (simp add: snapshot_def schedule_def isSorted_def)

lemma isSorted_agents: "agents s = agents t \<Longrightarrow> isSorted s = isSorted t"
  by (simp add: isSorted_def)

text \<open>
  C10: \<open>notifySwap\<close> leaves the \<open>state\<close> field as it is. It sets \<open>pos\<close> to the new
  index, adds one to \<open>totalSwaps\<close>, lowers \<open>jamCount\<close> by one but not below 0, and
  appends \<open>swap\<close> to the memory, dropping the oldest entry when twelve are already
  held; every other field keeps its value. Take a tick that starts unsorted, with
  every agent standing at its index, and ends sorted. The snapshot it emits last is
  the snapshot of the simulation it returns and reports \<open>sorted\<close>. No jam was recorded.
  Every agent, now at its goal index, has the state that \<open>decide\<close> gave it in this
  tick, which is not \<open>satisfied\<close> for an agent that was not at its goal before: at
  least one agent of the sorted snapshot is not \<open>satisfied\<close>. The next invocation of
  the tick takes the terminal branch and sets every state to \<open>satisfied\<close>.
\<close>

theorem last_tick_states:
  assumes "\<not> isSorted s" and "positions_ok (agents s)" and "valid_rng rnd"
    and "tick s rnd = Inr (s', rnd', out)" and "isSorted s'"
  shows "(\<forall>a p. state (notifySwap a p) = state a) \<and>
         (\<forall>a p. notifySwap a p =
            a\<lparr>pos := p,
              totalSwaps := totalSwaps a + 1,
              jamCount := (if jamCount a \<ge> 1 then jamCount a - 1 else 0),
              memory := (if length (memory a) < 12 then memory a @ [''swap'']
                         else tl (memory a) @ [''swap''])\<rparr>) \<and>
         last out = OnTick (snapshot s') \<and> sn_sorted (snapshot s') \<and> jams s' = jams s \<and>
         (\<forall>k < length (agents s).
            state (agents s' ! nat (goalIndex (agents s ! k)))
              = state (fst (decide (agents s ! k) (left_of (agents s) k) (right_of (agents s) k))) \<and>
            (\<not> atGoal (agents s ! k) \<longrightarrow>
               state (agents s' ! nat (goalIndex (agents s ! k))) \<noteq> SATISFIED)) \<and>
         (\<exists>a \<in> set (agents s'). state a \<noteq> SATISFIED) \<and>
         (\<forall>r. tick s' r =
            Inr ((stop s')\<lparr>agents := map (\<lambda>a. a\<lparr>state := SATISFIED\<rparr>) (agents s')\<rparr>, r,
                 [OnTick (snapshot ((stop s')\<lparr>agents := map (\<lambda>a. a\<lparr>state := SATISFIED\<rparr>)
                                                            (agents s')\<rparr>)),
                  OnLog LogDone]))"
proof -
  let ?n = "length (agents s)"
  let ?order = "fst (shuffle [0..<?n] rnd)"
  let ?D = "\<lambda>k. decide (agents s ! k) (left_of (agents s) k) (right_of (agents s) k)"
  from tick_unsorted [OF assms(1) assms(3)]
  obtain s2 m st where
    c: "collect ?order (s\<lparr>step := step s + 1\<rparr>) Map.empty = Inr (s2, m)"
    and r: "resolve ?order m
               \<lparr>r_sim = s2, swappedThisTick = {}, r_rng = snd (shuffle [0..<?n] rnd),
                r_out = []\<rparr> = Inr st"
    and t: "tick s rnd = Inr (if running (r_sim st) then schedule (r_sim st) else r_sim st,
                             r_rng st, r_out st @ [OnTick (snapshot (r_sim st))])"
    by blast
  let ?st0 = "\<lparr>r_sim = s2, swappedThisTick = {}, r_rng = snd (shuffle [0..<?n] rnd),
               r_out = []\<rparr>"
  from t assms(4) have s': "s' = (if running (r_sim st) then schedule (r_sim st) else r_sim st)"
    and out: "out = r_out st @ [OnTick (snapshot (r_sim st))]"
    by simp_all
  from s' have ag: "agents s' = agents (r_sim st)" and jm: "jams s' = jams (r_sim st)"
    and sn: "snapshot s' = snapshot (r_sim st)"
    by (simp_all add: snapshot_schedule) (simp_all add: schedule_def)
  have os: "set ?order = {0..<?n}" using assms(3) by (rule shuffle_order_set)
  have od: "distinct ?order" using assms(3) by (rule shuffle_order_distinct)
  from collect_result [OF c od] os
  have len2: "length (agents s2) = ?n"
    and dec: "\<And>k. k < ?n \<Longrightarrow> agents s2 ! k = fst (?D k) \<and> m k = Some (snd (?D k))"
    and non: "\<And>k. \<not> k < ?n \<Longrightarrow> m k = None"
    by simp_all
  from collect_directions [OF c] have ud: "unit_directions m"
    by (simp add: unit_directions_def)
  have p2: "positions_ok (agents s2)"
    unfolding positions_ok_def
  proof (intro allI impI)
    fix k assume "k < length (agents s2)"
    with len2 have k: "k < ?n" by simp
    with dec [OF k] decide_frame [of "agents s ! k"] assms(2)
    show "pos (agents s2 ! k) = int k" by (simp add: positions_ok_def)
  qed
  have fol: "intents_follow_goals m ?st0"
    unfolding intents_follow_goals_def
  proof (intro allI impI, elim conjE)
    fix k it
    assume mk: "m k = Some it" and dn: "direction it \<noteq> 0" and np: "action it \<noteq> Push"
    from mk non [of k] have k: "k < ?n" by (cases "k < ?n") simp_all
    from dec [OF k] mk have it: "it = snd (?D k)" and a2: "agents s2 ! k = fst (?D k)"
      by simp_all
    from k assms(2) have pk: "pos (agents s ! k) = int k" by (simp add: positions_ok_def)
    from a2 have g2: "goalIndex (agents s2 ! k) = goalIndex (agents s ! k)"
      by (simp add: decide_goal)
    from dn it have "\<not> atGoal (agents s ! k)"
      using decide_nonzero_not_at_goal by blast
    with pk have ne: "goalIndex (agents s ! k) \<noteq> int k" by (simp add: atGoal_def)
    from dn np it
    have "direction it = (if goalIndex (agents s ! k) - pos (agents s ! k) > 0 then 1 else - 1)"
      using decide_move_direction by blast
    with ne pk g2
    show "goalIndex (agents (r_sim ?st0) ! k) \<noteq> int k \<and>
          direction it = (if goalIndex (agents (r_sim ?st0) ! k) - int k > 0 then 1 else - 1)"
      by simp
  qed
  have srt: "isSorted (r_sim st)"
    using assms(5) isSorted_agents [OF ag] by simp
  have p0: "positions_ok (agents (r_sim ?st0))" using p2 by simp
  from resolve_no_jam [OF r ud p0 fol srt]
  have keys: "image_mset goal_state (mset (agents (r_sim st)))
                = image_mset goal_state (mset (agents s2))"
    and j2: "jams (r_sim st) = jams s2"
    by simp_all
  from collect_frame [OF c] have "jams s2 = jams s" by simp
  with j2 jm have jams: "jams s' = jams s" by simp
  from resolve_inv [OF r] p2 len2 ag
  have len': "length (agents s') = ?n" and p': "positions_ok (agents s')"
    by simp_all
  have track: "\<And>k. k < ?n \<Longrightarrow> nat (goalIndex (agents s ! k)) < length (agents s') \<and>
      state (agents s' ! nat (goalIndex (agents s ! k))) = state (fst (?D k))"
  proof -
    fix k assume k: "k < ?n"
    with len2 have "agents s2 ! k \<in> set (agents s2)" by simp
    then have "goal_state (agents s2 ! k) \<in># image_mset goal_state (mset (agents s2))"
      by simp
    with keys ag have "goal_state (agents s2 ! k) \<in># image_mset goal_state (mset (agents s'))"
      by simp
    then obtain a' where a': "a' \<in> set (agents s')"
      and gs: "goal_state a' = goal_state (agents s2 ! k)"
      by auto
    from a' obtain k' where k': "k' < length (agents s')" and ak: "a' = agents s' ! k'"
      by (auto simp: in_set_conv_nth)
    from sorted_goal_is_index [OF assms(5) p' k'] ak have "goalIndex a' = int k'" by simp
    with gs dec [OF k] have "goalIndex (agents s ! k) = int k'"
      by (simp add: goal_state_def decide_goal)
    then have "nat (goalIndex (agents s ! k)) = k'" by simp
    moreover from gs dec [OF k] have "state a' = state (fst (?D k))"
      by (simp add: goal_state_def)
    ultimately show "nat (goalIndex (agents s ! k)) < length (agents s') \<and>
      state (agents s' ! nat (goalIndex (agents s ! k))) = state (fst (?D k))"
      using k' ak by simp
  qed
  have frame: "\<forall>a p. state (notifySwap a p) = state a"
    by (simp add: notifySwap_def)
  have upd: "\<forall>a p. notifySwap a p =
            a\<lparr>pos := p,
              totalSwaps := totalSwaps a + 1,
              jamCount := (if jamCount a \<ge> 1 then jamCount a - 1 else 0),
              memory := (if length (memory a) < 12 then memory a @ [''swap'']
                         else tl (memory a) @ [''swap''])\<rparr>"
  proof (intro allI)
    fix a :: agent and p :: int
    have m: "remember (memory a) ''swap''
               = (if length (memory a) < 12 then memory a @ [''swap'']
                  else tl (memory a) @ [''swap''])"
      by (cases "memory a") (auto simp: remember_def Let_def)
    have j: "max 0 (jamCount a - 1) = (if jamCount a \<ge> 1 then jamCount a - 1 else 0)"
      by simp
    show "notifySwap a p =
            a\<lparr>pos := p,
              totalSwaps := totalSwaps a + 1,
              jamCount := (if jamCount a \<ge> 1 then jamCount a - 1 else 0),
              memory := (if length (memory a) < 12 then memory a @ [''swap'']
                         else tl (memory a) @ [''swap''])\<rparr>"
      unfolding notifySwap_def m j ..
  qed
  have lst: "last out = OnTick (snapshot s')"
    by (simp add: out sn)
  have rep: "sn_sorted (snapshot s')"
    using assms(5) by (simp add: snapshot_def)
  have each: "\<forall>k < ?n.
            state (agents s' ! nat (goalIndex (agents s ! k))) = state (fst (?D k)) \<and>
            (\<not> atGoal (agents s ! k) \<longrightarrow>
               state (agents s' ! nat (goalIndex (agents s ! k))) \<noteq> SATISFIED)"
    using track decide_unsatisfied by simp
  from assms(1) obtain k where k: "k < ?n" and ng: "\<not> atGoal (agents s ! k)"
    by (auto simp: isSorted_def list_all_length)
  from track [OF k] ng decide_unsatisfied [OF ng]
  have "agents s' ! nat (goalIndex (agents s ! k)) \<in> set (agents s')"
    and "state (agents s' ! nat (goalIndex (agents s ! k))) \<noteq> SATISFIED"
    by simp_all
  then have some: "\<exists>a \<in> set (agents s'). state a \<noteq> SATISFIED" by blast
  have nxt: "\<forall>r. tick s' r =
            Inr ((stop s')\<lparr>agents := map (\<lambda>a. a\<lparr>state := SATISFIED\<rparr>) (agents s')\<rparr>, r,
                 [OnTick (snapshot ((stop s')\<lparr>agents := map (\<lambda>a. a\<lparr>state := SATISFIED\<rparr>)
                                                            (agents s')\<rparr>)),
                  OnLog LogDone])"
    using assms(5) by (simp add: tick_def Let_def stop_def)
  from frame upd lst rep jams each some nxt show ?thesis by (intro conjI)
qed

lemma last_swap_tick:
  "tick last_swap_sim (const_rng (9 / 10)) =
     Inr (last_swap_sim
            \<lparr>agents := [agents last_swap_sim ! 0,
                        notifySwap ((agents last_swap_sim ! 2)\<lparr>state := MOVING\<rparr>) 1,
                        notifySwap ((agents last_swap_sim ! 1)\<lparr>state := MOVING\<rparr>) 2],
             step := 8, swaps := 5\<rparr>,
          const_rng (9 / 10),
          [OnTick (snapshot (last_swap_sim
            \<lparr>agents := [agents last_swap_sim ! 0,
                        notifySwap ((agents last_swap_sim ! 2)\<lparr>state := MOVING\<rparr>) 1,
                        notifySwap ((agents last_swap_sim ! 1)\<lparr>state := MOVING\<rparr>) 2],
             step := 8, swaps := 5\<rparr>))])"
  unfolding tick_def
  apply (simp add: isSorted_def atGoal_def last_swap_sim_def new_Agent_def)
  apply (simp add: shuffle3_identity)
  apply (simp add: decide_def atGoal_def distanceToGoal_def Let_def)
  apply (simp add: resolve_one_def Let_def considerSwap_def distanceToGoal_def swap_def)
  done

theorem last_tick_states_witness:
  "\<not> isSorted last_swap_sim \<and>
   isSorted (fst (projr (tick last_swap_sim (const_rng (9 / 10))))) \<and>
   sn_sorted (snapshot (fst (projr (tick last_swap_sim (const_rng (9 / 10)))))) \<and>
   map val (agents (fst (projr (tick last_swap_sim (const_rng (9 / 10)))))) = [1, 2, 3] \<and>
   map state (agents (fst (projr (tick last_swap_sim (const_rng (9 / 10))))))
     = [SATISFIED, MOVING, MOVING] \<and>
   map totalSwaps (agents (fst (projr (tick last_swap_sim (const_rng (9 / 10))))))
     = [0, 1, 1] \<and>
   map memory (agents (fst (projr (tick last_swap_sim (const_rng (9 / 10))))))
     = [[], [''swap''], [''swap'']] \<and>
   map state (agents (fst (projr (tick (fst (projr (tick last_swap_sim (const_rng (9 / 10)))))
                                     (const_rng (9 / 10))))))
     = [SATISFIED, SATISFIED, SATISFIED]"
proof -
  let ?s' = "last_swap_sim
            \<lparr>agents := [agents last_swap_sim ! 0,
                        notifySwap ((agents last_swap_sim ! 2)\<lparr>state := MOVING\<rparr>) 1,
                        notifySwap ((agents last_swap_sim ! 1)\<lparr>state := MOVING\<rparr>) 2],
             step := 8, swaps := 5\<rparr>"
  have h1: "\<not> isSorted last_swap_sim"
    by (simp add: isSorted_def atGoal_def last_swap_sim_def new_Agent_def)
  have h2: "positions_ok (agents last_swap_sim)"
    by (simp add: positions_ok_def last_swap_sim_def new_Agent_def less_Suc_eq numeral_3_eq_3)
  have h3: "valid_rng (const_rng (9 / 10))"
    by (simp add: valid_rng_def const_rng_def)
  have h5: "isSorted ?s'"
    by (simp add: isSorted_def atGoal_def last_swap_sim_def new_Agent_def notifySwap_def)
  note w = last_tick_states [OF h1 h2 h3 last_swap_tick h5]
  from w have upd: "\<And>a p. notifySwap a p =
            a\<lparr>pos := p,
              totalSwaps := totalSwaps a + 1,
              jamCount := (if jamCount a \<ge> 1 then jamCount a - 1 else 0),
              memory := (if length (memory a) < 12 then memory a @ [''swap'']
                         else tl (memory a) @ [''swap''])\<rparr>"
    by blast
  from w
  have nxt: "tick ?s' (const_rng (9 / 10)) =
            Inr ((stop ?s')\<lparr>agents := map (\<lambda>a. a\<lparr>state := SATISFIED\<rparr>) (agents ?s')\<rparr>,
                 const_rng (9 / 10),
                 [OnTick (snapshot ((stop ?s')\<lparr>agents := map (\<lambda>a. a\<lparr>state := SATISFIED\<rparr>)
                                                            (agents ?s')\<rparr>)),
                  OnLog LogDone])"
    by blast
  have "map val (agents ?s') = [1, 2, 3]"
    and "map state (agents ?s') = [SATISFIED, MOVING, MOVING]"
    and "map totalSwaps (agents ?s') = [0, 1, 1]"
    and "map memory (agents ?s') = [[], [''swap''], [''swap'']]"
    by (simp_all add: last_swap_sim_def new_Agent_def upd)
  with h1 h5 nxt show ?thesis
    by (simp add: last_swap_tick snapshot_def)
qed

end
